theory Spec2Isabelle
  imports Main "HOL-Library.Word" "HOL-Library.Sublist" "HOL-Library.Multiset"
begin

unbundle bit_operations_syntax

section \<open>Values, rows and errors\<close>

text \<open>
  Go's \<open>int8\<close> levels and column indexes are 8-bit words read as two's complement
  (\<open>sint\<close>, \<open><s\<close>); Go's \<open>int\<close> is the 64-bit word of the amd64 and arm64 targets and
  \<open>uint32\<close> the 32-bit word. Arithmetic on all of them wraps silently, as in Go.
\<close>

type_synonym int8 = "8 word"
type_synonym goInt = "64 word"
type_synonym uint32 = "32 word"

text \<open>
  The payload of a value, tagged by its physical kind. Floats and doubles are kept as
  their bit patterns: the buffers only store and return them.
\<close>

datatype payload =
    Null
  | PBoolean bool
  | PInt32 "32 word"
  | PInt64 "64 word"
  | PInt96 "96 word"
  | PFloat "32 word"
  | PDouble "64 word"
  | PByteArray "8 word list"
  | PFixedLenByteArray "8 word list"

record Value =
  payload :: payload
  repetitionLevel :: int8
  definitionLevel :: int8
  columnIndex :: int8

type_synonym Row = "Value list"

text \<open>The Go zero value \<open>Value{}\<close>.\<close>

definition zeroValue :: Value where
  "zeroValue = \<lparr>payload = Null, repetitionLevel = 0, definitionLevel = 0, columnIndex = 0\<rparr>"

text \<open>
  Modelled from the spec: the methods of \<open>Value\<close> (file value.go is not part of the
  sources). The column index is stored as the bitwise complement of the true index; the
  typed accessors read the payload of their kind and give the zero of the type for any
  other value, so that a null is stored as a zero placeholder.
\<close>

definition ColumnIndex :: "Value \<Rightarrow> int8" where
  "ColumnIndex v = NOT (columnIndex v)"

definition RepetitionLevel :: "Value \<Rightarrow> int8" where
  "RepetitionLevel v = repetitionLevel v"

definition DefinitionLevel :: "Value \<Rightarrow> int8" where
  "DefinitionLevel v = definitionLevel v"

definition valueBoolean :: "Value \<Rightarrow> bool" where
  "valueBoolean v = (case payload v of PBoolean b \<Rightarrow> b | _ \<Rightarrow> False)"

definition valueInt32 :: "Value \<Rightarrow> 32 word" where
  "valueInt32 v = (case payload v of PInt32 x \<Rightarrow> x | _ \<Rightarrow> 0)"

definition valueInt64 :: "Value \<Rightarrow> 64 word" where
  "valueInt64 v = (case payload v of PInt64 x \<Rightarrow> x | _ \<Rightarrow> 0)"

definition valueInt96 :: "Value \<Rightarrow> 96 word" where
  "valueInt96 v = (case payload v of PInt96 x \<Rightarrow> x | _ \<Rightarrow> 0)"

definition valueFloat :: "Value \<Rightarrow> 32 word" where
  "valueFloat v = (case payload v of PFloat x \<Rightarrow> x | _ \<Rightarrow> 0)"

definition valueDouble :: "Value \<Rightarrow> 64 word" where
  "valueDouble v = (case payload v of PDouble x \<Rightarrow> x | _ \<Rightarrow> 0)"

definition valueByteArray :: "Value \<Rightarrow> 8 word list" where
  "valueByteArray v =
     (case payload v of PByteArray b \<Rightarrow> b | PFixedLenByteArray b \<Rightarrow> b | _ \<Rightarrow> [])"

definition makeValue :: "payload \<Rightarrow> Value" where
  "makeValue p = zeroValue\<lparr>payload := p\<rparr>"

text \<open>
  Errors are values; a Go runtime panic is the left summand of the result, so that a
  function which panics does not return.
\<close>

datatype panic =
    IndexOutOfRange
  | SliceBoundsOutOfRange
  | IntegerDivideByZero
  | TooManyColumns
  | ReflectPanic

datatype error =
    EOF
  | ErrRowIndexOutOfBounds goInt int
  | ErrOptionalNoValue goInt
  | ErrOptionalMoreThanOneValue goInt
  | ErrRepeatedNoValues nat goInt
  | ErrRepeatedMoreThanOneValue nat goInt
  | ErrMissingOptionalColumn int
  | ErrOptionalTooShort int int nat
  | ErrMissingRepeatedColumn int
  | ErrRepeatedTooShort int int nat
  | ErrRepeatedNotSlice int
  | ErrLeafEmptyRow int
  | ErrLeafNoValues int
  | ErrAssign
  | ErrChild string error

section \<open>Go slices and indexes\<close>

definition inRange :: "goInt \<Rightarrow> 'a list \<Rightarrow> bool" where
  "inRange i xs \<longleftrightarrow> 0 \<le> sint i \<and> sint i < int (length xs)"

definition at :: "'a list \<Rightarrow> goInt \<Rightarrow> 'a" where
  "at xs i = xs ! nat (sint i)"

text \<open>
  \<open>xs[i], xs[j] = xs[j], xs[i]\<close>: both index expressions are checked before the
  assignment.
\<close>

definition swapAt :: "'a list \<Rightarrow> goInt \<Rightarrow> goInt \<Rightarrow> panic + 'a list" where
  "swapAt xs i j =
     (if inRange i xs \<and> inRange j xs
      then Inr (xs[nat (sint i) := at xs j, nat (sint j) := at xs i])
      else Inl IndexOutOfRange)"

text \<open>
  \<open>xs[lo:hi]\<close> on natural bounds. The capacity of a slice is taken to be its length, so
  a slice expression that reaches past the length panics.
\<close>

definition sliceOf :: "'a list \<Rightarrow> nat \<Rightarrow> nat \<Rightarrow> panic + 'a list" where
  "sliceOf xs lo hi =
     (if lo \<le> hi \<and> hi \<le> length xs then Inr (take (hi - lo) (drop lo xs))
      else Inl SliceBoundsOutOfRange)"

text \<open>\<open>return row[:n], err\<close>.\<close>

definition truncated :: "Row \<Rightarrow> nat \<Rightarrow> error \<Rightarrow> panic + (Row \<times> error option)" where
  "truncated row n err =
     (if n \<le> length row then Inr (take n row, Some err) else Inl SliceBoundsOutOfRange)"

text \<open>Go's integer division truncates towards zero.\<close>

definition quo :: "int \<Rightarrow> int \<Rightarrow> int" where
  "quo a b = sgn a * sgn b * (\<bar>a\<bar> div \<bar>b\<bar>)"

section \<open>Buffer columns\<close>

datatype nullOrdering = NullsGoFirst | NullsGoLast

record region =
  offset :: uint32
  length_region :: uint32

text \<open>
  The interface \<open>BufferColumn\<close> with the implementations of buffer_column.go as its
  constructors. The fields of the optional column are base, maxDefinitionLevel,
  definitionLevels and nullOrdering; those of the repeated column are base,
  maxRepetitionLevel, maxDefinitionLevel, rows, repetitionLevels, definitionLevels, buffer,
  reordering and nullOrdering. The fixed-length column holds size and data (its scratch
  array tmp holds no state between calls).
\<close>

datatype bufferColumn =
    BooleanBufferColumn "bool list"
  | Int32BufferColumn "32 word list"
  | Int64BufferColumn "64 word list"
  | Int96BufferColumn "96 word list"
  | FloatBufferColumn "32 word list"
  | DoubleBufferColumn "64 word list"
  | ByteArrayBufferColumn "8 word list list"
  | FixedLenByteArrayBufferColumn goInt "8 word list"
  | Uint32BufferColumn "32 word list"
  | Uint64BufferColumn "64 word list"
  | ReversedBufferColumn bufferColumn
  | OptionalBufferColumn bufferColumn int8 "int8 list" nullOrdering
  | RepeatedBufferColumn bufferColumn int8 int8 "region list" "int8 list" "int8 list"
      "Value list" "bufferColumn option" nullOrdering

subsection \<open>WriteRow\<close>

text \<open>\<open>col.row(n)\<close> of the repeated column.\<close>

definition row_region :: "int8 list \<Rightarrow> nat \<Rightarrow> region" where
  "row_region repetitionLevels n =
     \<lparr>offset = of_nat (length repetitionLevels), length_region = of_nat n\<rparr>"

fun WriteRow :: "bufferColumn \<Rightarrow> Row \<Rightarrow> error option \<times> bufferColumn" where
  "WriteRow (BooleanBufferColumn vs) row = (None, BooleanBufferColumn (vs @ map valueBoolean row))"
| "WriteRow (Int32BufferColumn vs) row = (None, Int32BufferColumn (vs @ map valueInt32 row))"
| "WriteRow (Int64BufferColumn vs) row = (None, Int64BufferColumn (vs @ map valueInt64 row))"
| "WriteRow (Int96BufferColumn vs) row = (None, Int96BufferColumn (vs @ map valueInt96 row))"
| "WriteRow (FloatBufferColumn vs) row = (None, FloatBufferColumn (vs @ map valueFloat row))"
| "WriteRow (DoubleBufferColumn vs) row = (None, DoubleBufferColumn (vs @ map valueDouble row))"
| "WriteRow (ByteArrayBufferColumn vs) row =
     (None, ByteArrayBufferColumn (vs @ map valueByteArray row))"
| "WriteRow (FixedLenByteArrayBufferColumn sz dat) row =
     (None, FixedLenByteArrayBufferColumn sz (dat @ concat (map valueByteArray row)))"
| "WriteRow (Uint32BufferColumn vs) row = (None, Uint32BufferColumn (vs @ map valueInt32 row))"
| "WriteRow (Uint64BufferColumn vs) row = (None, Uint64BufferColumn (vs @ map valueInt64 row))"
| "WriteRow (ReversedBufferColumn base) row =
     (case WriteRow base row of (err, base') \<Rightarrow> (err, ReversedBufferColumn base'))"
| "WriteRow (OptionalBufferColumn base maxDef defs ord) row =
     (case WriteRow base row of
        (Some err, base') \<Rightarrow> (Some err, OptionalBufferColumn base' maxDef defs ord)
      | (None, base') \<Rightarrow>
          (None, OptionalBufferColumn base' maxDef (defs @ map DefinitionLevel row) ord))"
| "WriteRow (RepeatedBufferColumn base maxRep maxDef rows reps defs buf reord ord) row =
     (case WriteRow base row of
        (Some err, base') \<Rightarrow>
          (Some err, RepeatedBufferColumn base' maxRep maxDef rows reps defs buf reord ord)
      | (None, base') \<Rightarrow>
          (None, RepeatedBufferColumn base' maxRep maxDef
             (rows @ [row_region reps (length row)])
             (reps @ map RepetitionLevel row)
             (defs @ map DefinitionLevel row) buf reord ord))"

subsection \<open>ReadRowAt\<close>

text \<open>The three-way switch shared by the flat typed columns.\<close>

definition readFlat :: "('a \<Rightarrow> payload) \<Rightarrow> 'a list \<Rightarrow> Row \<Rightarrow> goInt \<Rightarrow> panic + (Row \<times> error option)" where
  "readFlat mk vs row index =
     (if index <s 0 then Inr (row, Some (ErrRowIndexOutOfBounds index (int (length vs))))
      else if int (length vs) \<le> sint index then Inr (row, Some EOF)
      else Inr (row @ [makeValue (mk (at vs index))], None))"

text \<open>
  \<open>fixedLenByteArrayBufferColumn.ReadRowAt\<close>: the bounds are tested on the products
  \<open>index * size\<close> and \<open>(index + 1) * size\<close>, which wrap.
\<close>

definition readFixedLen :: "goInt \<Rightarrow> 8 word list \<Rightarrow> Row \<Rightarrow> goInt \<Rightarrow> panic + (Row \<times> error option)" where
  "readFixedLen sz dat row index =
     (let i = (index + 0) * sz; j = (index + 1) * sz in
      if i <s 0 then
        (if sz = 0 then Inl IntegerDivideByZero
         else Inr (row, Some (ErrRowIndexOutOfBounds index (quo (int (length dat)) (sint sz)))))
      else if int (length dat) < sint j then Inr (row, Some EOF)
      else if sint j < sint i then Inl SliceBoundsOutOfRange
      else Inr (row @ [makeValue (PFixedLenByteArray
                  (take (nat (sint j) - nat (sint i)) (drop (nat (sint i)) dat)))], None))"

text \<open>
  The loop of \<open>repeatedBufferColumn.ReadRowAt\<close> over the levels of one region;
  \<open>read\<close> is the base column's ReadRowAt, \<open>reset\<close> the length of the caller's row and
  \<open>i\<close> the loop index.
\<close>

fun repeatedReadLoop ::
  "(Row \<Rightarrow> goInt \<Rightarrow> panic + (Row \<times> error option)) \<Rightarrow> int8 \<Rightarrow> nat \<Rightarrow> goInt \<Rightarrow> uint32 \<Rightarrow>
   nat \<Rightarrow> (int8 \<times> int8) list \<Rightarrow> Row \<Rightarrow> panic + (Row \<times> error option)" where
  "repeatedReadLoop read maxDef reset index off i [] row = Inr (row, None)"
| "repeatedReadLoop read maxDef reset index off i ((r, d) # levels) row =
     (if d \<noteq> maxDef then
        repeatedReadLoop read maxDef reset index off (Suc i) levels
          (row @ [zeroValue\<lparr>repetitionLevel := r, definitionLevel := d\<rparr>])
      else
        (case read row (of_nat (unat off) + of_nat i) of
           Inl p \<Rightarrow> Inl p
         | Inr (row', Some err) \<Rightarrow> truncated row' reset err
         | Inr (row', None) \<Rightarrow>
             if length row = length row' then
               truncated row' reset (ErrRepeatedNoValues i index)
             else if int (length row) \<noteq> int (length row') - 1 then
               truncated row' reset (ErrRepeatedMoreThanOneValue i index)
             else
               repeatedReadLoop read maxDef reset index off (Suc i) levels
                 (row'[length row :=
                    (row' ! length row)\<lparr>repetitionLevel := r, definitionLevel := d\<rparr>])))"

fun ReadRowAt :: "bufferColumn \<Rightarrow> Row \<Rightarrow> goInt \<Rightarrow> panic + (Row \<times> error option)" where
  "ReadRowAt (BooleanBufferColumn vs) row index = readFlat PBoolean vs row index"
| "ReadRowAt (Int32BufferColumn vs) row index = readFlat PInt32 vs row index"
| "ReadRowAt (Int64BufferColumn vs) row index = readFlat PInt64 vs row index"
| "ReadRowAt (Int96BufferColumn vs) row index = readFlat PInt96 vs row index"
| "ReadRowAt (FloatBufferColumn vs) row index = readFlat PFloat vs row index"
| "ReadRowAt (DoubleBufferColumn vs) row index = readFlat PDouble vs row index"
| "ReadRowAt (ByteArrayBufferColumn vs) row index = readFlat PByteArray vs row index"
| "ReadRowAt (FixedLenByteArrayBufferColumn sz dat) row index = readFixedLen sz dat row index"
| "ReadRowAt (Uint32BufferColumn vs) row index = readFlat PInt32 vs row index"
| "ReadRowAt (Uint64BufferColumn vs) row index = readFlat PInt64 vs row index"
| "ReadRowAt (ReversedBufferColumn base) row index = ReadRowAt base row index"
| "ReadRowAt (OptionalBufferColumn base maxDef defs ord) row index =
     (if index <s 0 then Inr (row, Some (ErrRowIndexOutOfBounds index (int (length defs))))
      else if int (length defs) \<le> sint index then Inr (row, Some EOF)
      else if at defs index \<noteq> maxDef then
        Inr (row @ [zeroValue\<lparr>definitionLevel := at defs index\<rparr>], None)
      else
        (case ReadRowAt base row index of
           Inl p \<Rightarrow> Inl p
         | Inr (row', Some err) \<Rightarrow> Inr (row', Some err)
         | Inr (row', None) \<Rightarrow>
             if length row = length row' then
               truncated row' (length row) (ErrOptionalNoValue index)
             else if int (length row) \<noteq> int (length row') - 1 then
               truncated row' (length row) (ErrOptionalMoreThanOneValue index)
             else
               Inr (row'[length row := (row' ! length row)\<lparr>definitionLevel := at defs index\<rparr>],
                    None)))"
| "ReadRowAt (RepeatedBufferColumn base maxRep maxDef rows reps defs buf reord ord) row index =
     (if index <s 0 then Inr (row, Some (ErrRowIndexOutOfBounds index (int (length rows))))
      else if int (length rows) \<le> sint index then Inr (row, Some EOF)
      else
        (let lo = unat (offset (at rows index));
             hi = unat (offset (at rows index) + length_region (at rows index)) in
         case sliceOf reps lo hi of
           Inl p \<Rightarrow> Inl p
         | Inr repetitionLevels \<Rightarrow>
             (case sliceOf defs lo hi of
                Inl p \<Rightarrow> Inl p
              | Inr definitionLevels \<Rightarrow>
                  repeatedReadLoop (\<lambda>r k. ReadRowAt base r k) maxDef (length row) index
                    (offset (at rows index)) 0 (zip repetitionLevels definitionLevels) row)))"

subsection \<open>Swap, Reset, Clone and the constructors\<close>

text \<open>
  \<open>fixedLenByteArrayBufferColumn.index\<close>: the bounds of \<open>data[j:k:k]\<close>, or the panic
  of the slice expression.
\<close>

definition fixedIndex :: "goInt \<Rightarrow> 8 word list \<Rightarrow> goInt \<Rightarrow> panic + (nat \<times> nat)" where
  "fixedIndex sz dat i =
     (let j = (i + 0) * sz; k = (i + 1) * sz in
      if 0 \<le> sint j \<and> sint j \<le> sint k \<and> sint k \<le> int (length dat)
      then Inr (nat (sint j), nat (sint k)) else Inl SliceBoundsOutOfRange)"

text \<open>\<open>copy(dst, src)\<close> where \<open>dst\<close> is the window of \<open>n\<close> bytes of \<open>dat\<close> at \<open>lo\<close>.\<close>

definition copyInto :: "'a list \<Rightarrow> nat \<Rightarrow> nat \<Rightarrow> 'a list \<Rightarrow> 'a list" where
  "copyInto dat lo n src =
     take lo dat @ take (min n (length src)) src @ drop (lo + min n (length src)) dat"

definition swapFixedLen :: "goInt \<Rightarrow> 8 word list \<Rightarrow> goInt \<Rightarrow> goInt \<Rightarrow> panic + 8 word list" where
  "swapFixedLen sz dat i j =
     (case fixedIndex sz dat i of
        Inl p \<Rightarrow> Inl p
      | Inr (a, b) \<Rightarrow>
          (case fixedIndex sz dat j of
             Inl p \<Rightarrow> Inl p
           | Inr (c, d) \<Rightarrow>
               (let t = take (b - a) (drop a dat);
                    dat1 = copyInto dat a (b - a) (take (d - c) (drop c dat))
                in Inr (copyInto dat1 c (d - c) t))))"

fun Swap :: "bufferColumn \<Rightarrow> goInt \<Rightarrow> goInt \<Rightarrow> panic + bufferColumn" where
  "Swap (BooleanBufferColumn vs) i j = map_sum id BooleanBufferColumn (swapAt vs i j)"
| "Swap (Int32BufferColumn vs) i j = map_sum id Int32BufferColumn (swapAt vs i j)"
| "Swap (Int64BufferColumn vs) i j = map_sum id Int64BufferColumn (swapAt vs i j)"
| "Swap (Int96BufferColumn vs) i j = map_sum id Int96BufferColumn (swapAt vs i j)"
| "Swap (FloatBufferColumn vs) i j = map_sum id FloatBufferColumn (swapAt vs i j)"
| "Swap (DoubleBufferColumn vs) i j = map_sum id DoubleBufferColumn (swapAt vs i j)"
| "Swap (ByteArrayBufferColumn vs) i j = map_sum id ByteArrayBufferColumn (swapAt vs i j)"
| "Swap (FixedLenByteArrayBufferColumn sz dat) i j =
     map_sum id (FixedLenByteArrayBufferColumn sz) (swapFixedLen sz dat i j)"
| "Swap (Uint32BufferColumn vs) i j = map_sum id Uint32BufferColumn (swapAt vs i j)"
| "Swap (Uint64BufferColumn vs) i j = map_sum id Uint64BufferColumn (swapAt vs i j)"
| "Swap (ReversedBufferColumn base) i j = map_sum id ReversedBufferColumn (Swap base i j)"
| "Swap (OptionalBufferColumn base maxDef defs ord) i j =
     (case Swap base i j of
        Inl p \<Rightarrow> Inl p
      | Inr base' \<Rightarrow>
          map_sum id (\<lambda>defs'. OptionalBufferColumn base' maxDef defs' ord) (swapAt defs i j))"
| "Swap (RepeatedBufferColumn base maxRep maxDef rows reps defs buf reord ord) i j =
     map_sum id (\<lambda>rows'. RepeatedBufferColumn base maxRep maxDef rows' reps defs buf reord ord)
       (swapAt rows i j)"

fun Reset :: "bufferColumn \<Rightarrow> bufferColumn" where
  "Reset (BooleanBufferColumn vs) = BooleanBufferColumn []"
| "Reset (Int32BufferColumn vs) = Int32BufferColumn []"
| "Reset (Int64BufferColumn vs) = Int64BufferColumn []"
| "Reset (Int96BufferColumn vs) = Int96BufferColumn []"
| "Reset (FloatBufferColumn vs) = FloatBufferColumn []"
| "Reset (DoubleBufferColumn vs) = DoubleBufferColumn []"
| "Reset (ByteArrayBufferColumn vs) = ByteArrayBufferColumn []"
| "Reset (FixedLenByteArrayBufferColumn sz dat) = FixedLenByteArrayBufferColumn sz []"
| "Reset (Uint32BufferColumn vs) = Uint32BufferColumn []"
| "Reset (Uint64BufferColumn vs) = Uint64BufferColumn []"
| "Reset (ReversedBufferColumn base) = ReversedBufferColumn (Reset base)"
| "Reset (OptionalBufferColumn base maxDef defs ord) =
     OptionalBufferColumn (Reset base) maxDef [] ord"
| "Reset (RepeatedBufferColumn base maxRep maxDef rows reps defs buf reord ord) =
     RepeatedBufferColumn (Reset base) maxRep maxDef [] [] [] buf reord ord"

text \<open>
  \<open>Clone\<close> copies every array. The reversed column has no Clone of its own: the method
  promoted from the embedded interface returns the clone of the wrapped column.
\<close>

fun Clone :: "bufferColumn \<Rightarrow> bufferColumn" where
  "Clone (ReversedBufferColumn base) = Clone base"
| "Clone (OptionalBufferColumn base maxDef defs ord) =
     OptionalBufferColumn (Clone base) maxDef defs ord"
| "Clone (RepeatedBufferColumn base maxRep maxDef rows reps defs buf reord ord) =
     RepeatedBufferColumn (Clone base) maxRep maxDef rows reps defs [] None ord"
| "Clone col = col"

definition newOptionalBufferColumn :: "bufferColumn \<Rightarrow> int8 \<Rightarrow> nullOrdering \<Rightarrow> bufferColumn" where
  "newOptionalBufferColumn base maxDef ord = OptionalBufferColumn base maxDef [] ord"

definition newRepeatedBufferColumn ::
  "bufferColumn \<Rightarrow> int8 \<Rightarrow> int8 \<Rightarrow> nullOrdering \<Rightarrow> bufferColumn" where
  "newRepeatedBufferColumn base maxRep maxDef ord =
     RepeatedBufferColumn base maxRep maxDef [] [] [] [] None ord"

section \<open>Properties of the buffer columns\<close>

subsection \<open>WriteRow never fails\<close>

lemma WriteRow_no_error: "fst (WriteRow col row) = None"
proof (induction col arbitrary: row)
  case (ReversedBufferColumn base)
  from ReversedBufferColumn [of row] show ?case
    by (cases "WriteRow base row") simp
next
  case (OptionalBufferColumn base maxDef defs ord)
  from OptionalBufferColumn [of row] show ?case
    by (cases "WriteRow base row") (simp split: option.splits)
next
  case (RepeatedBufferColumn base maxRep maxDef rows reps defs buf reord ord)
  from RepeatedBufferColumn(1) [of row] show ?case
    by (cases "WriteRow base row") (simp split: option.splits)
qed simp_all

text \<open>
  Claim C10. WriteRow returns the nil error for every column and every row: the flat typed
  columns (boolean, int32, int64, int96, float, double, byte array, fixed-length byte
  array, and the unsigned wrappers) always return nil, hence the error branches of the
  optional and of the repeated column are never taken and they return nil as well,
  whatever column they wrap.
\<close>

theorem WriteRow_never_fails: "fst (WriteRow col row) = None"
  by (rule WriteRow_no_error)

subsection \<open>ReadRowAt only appends\<close>

text \<open>
  Every ReadRowAt of the file returns a row that extends the row it was given: the values
  already in the caller's row are never touched.
\<close>

lemma truncated_Inr:
  "truncated row n err = Inr (row', e) \<Longrightarrow> n \<le> length row \<and> row' = take n row \<and> e = Some err"
  by (auto simp: truncated_def split: if_splits)

lemma repeatedReadLoop_prefix:
  assumes read: "\<And>r k r' e. read r k = Inr (r', e) \<Longrightarrow> prefix r r'"
  shows "repeatedReadLoop read maxDef reset index off i levels row = Inr (row', e) \<Longrightarrow>
         reset \<le> length row \<Longrightarrow>
         prefix (take reset row) row' \<and> (e \<noteq> None \<longrightarrow> row' = take reset row)"
proof (induction levels arbitrary: i row)
  case Nil
  then show ?case by (auto simp: take_is_prefix)
next
  case (Cons rd levels)
  obtain r d where rd: "rd = (r, d)" by (cases rd)
  show ?case
  proof (cases "d \<noteq> maxDef")
    case True
    with Cons.prems rd have
      "repeatedReadLoop read maxDef reset index off (Suc i) levels
         (row @ [zeroValue\<lparr>repetitionLevel := r, definitionLevel := d\<rparr>]) = Inr (row', e)"
      by simp
    from Cons.IH [OF this] Cons.prems(2) show ?thesis by simp
  next
    case False
    then have d: "d = maxDef" by simp
    show ?thesis
    proof (cases "read row (of_nat (unat off) + of_nat i)")
      case (Inl p)
      with Cons.prems rd d show ?thesis by simp
    next
      case (Inr res)
      obtain r1 e1 where res: "res = (r1, e1)" by (cases res)
      from read Inr res have pre: "prefix row r1" by blast
      then have len: "length row \<le> length r1" by (rule prefix_length_le)
      from pre have tk: "take reset r1 = take reset row"
        using Cons.prems(2) by (auto simp: prefix_def)
      show ?thesis
      proof (cases e1)
        case (Some err)
        with Cons.prems rd d Inr res have "truncated r1 reset err = Inr (row', e)" by simp
        from truncated_Inr [OF this] tk show ?thesis by simp
      next
        case None
        show ?thesis
        proof (cases "length row = length r1")
          case True
          with Cons.prems rd d Inr res None
          have "truncated r1 reset (ErrRepeatedNoValues i index) = Inr (row', e)" by simp
          from truncated_Inr [OF this] tk show ?thesis by simp
        next
          case neq: False
          show ?thesis
          proof (cases "int (length row) \<noteq> int (length r1) - 1")
            case True
            with Cons.prems rd d Inr res None neq
            have "truncated r1 reset (ErrRepeatedMoreThanOneValue i index) = Inr (row', e)"
              by simp
            from truncated_Inr [OF this] tk show ?thesis by simp
          next
            case False
            let ?row = "r1[length row := (r1 ! length row)\<lparr>repetitionLevel := r, definitionLevel := d\<rparr>]"
            from False Cons.prems rd d Inr res None neq
            have run: "repeatedReadLoop read maxDef reset index off (Suc i) levels ?row = Inr (row', e)"
              by simp
            have "reset \<le> length ?row" using Cons.prems(2) len by simp
            from Cons.IH [OF run this] have
              "prefix (take reset ?row) row' \<and> (e \<noteq> None \<longrightarrow> row' = take reset ?row)" .
            moreover have "take reset ?row = take reset row"
              using tk Cons.prems(2) by simp
            ultimately show ?thesis by simp
          qed
        qed
      qed
    qed
  qed
qed

lemma readFlat_prefix: "readFlat mk vs row index = Inr (row', e) \<Longrightarrow> prefix row row'"
  by (auto simp: readFlat_def split: if_splits)

lemma readFixedLen_prefix: "readFixedLen sz dat row index = Inr (row', e) \<Longrightarrow> prefix row row'"
  by (auto simp: readFixedLen_def Let_def split: if_splits)

lemma ReadRowAt_prefix: "ReadRowAt col row index = Inr (row', e) \<Longrightarrow> prefix row row'"
proof (induction col arbitrary: row index row' e)
  case (OptionalBufferColumn base maxDef defs ord)
  show ?case
  proof (cases "index <s 0 \<or> int (length defs) \<le> sint index \<or> at defs index \<noteq> maxDef")
    case True
    with OptionalBufferColumn.prems show ?thesis by (auto split: if_splits)
  next
    case False
    show ?thesis
    proof (cases "ReadRowAt base row index")
      case (Inl p)
      with False OptionalBufferColumn.prems show ?thesis by simp
    next
      case (Inr res)
      obtain r1 e1 where res: "res = (r1, e1)" by (cases res)
      from OptionalBufferColumn.IH Inr res have pre: "prefix row r1" by blast
      then have tk: "take (length row) r1 = row" by (auto simp: prefix_def)
      from pre have upd: "\<And>x. prefix row (r1[length row := x])"
        by (auto simp: prefix_def list_update_append)
      show ?thesis
      proof (cases e1)
        case (Some err)
        with False OptionalBufferColumn.prems Inr res pre show ?thesis by simp
      next
        case None
        show ?thesis
        proof (cases "length row = length r1")
          case True
          with False OptionalBufferColumn.prems Inr res None
          have "truncated r1 (length row) (ErrOptionalNoValue index) = Inr (row', e)" by simp
          from truncated_Inr [OF this] tk show ?thesis by simp
        next
          case neq: False
          show ?thesis
          proof (cases "int (length row) \<noteq> int (length r1) - 1")
            case True
            with False OptionalBufferColumn.prems Inr res None neq
            have "truncated r1 (length row) (ErrOptionalMoreThanOneValue index) = Inr (row', e)"
              by simp
            from truncated_Inr [OF this] tk show ?thesis by simp
          next
            case last: False
            with False OptionalBufferColumn.prems Inr res None neq
            have "row' = r1[length row := (r1 ! length row)\<lparr>definitionLevel := at defs index\<rparr>]"
              by simp
            with upd show ?thesis by simp
          qed
        qed
      qed
    qed
  qed
next
  case (RepeatedBufferColumn base maxRep maxDef rows reps defs buf reord ord)
  have read: "\<And>r k r' e. ReadRowAt base r k = Inr (r', e) \<Longrightarrow> prefix r r'"
    using RepeatedBufferColumn.IH(1) by blast
  show ?case
  proof (cases "index <s 0 \<or> int (length rows) \<le> sint index")
    case True
    with RepeatedBufferColumn.prems show ?thesis by (auto split: if_splits)
  next
    case False
    with RepeatedBufferColumn.prems obtain lv where
      "repeatedReadLoop (\<lambda>r k. ReadRowAt base r k) maxDef (length row) index
         (offset (at rows index)) 0 lv row = Inr (row', e)"
      by (auto simp: Let_def split: sum.splits)
    from repeatedReadLoop_prefix [of "\<lambda>r k. ReadRowAt base r k", OF read this]
    show ?thesis by simp
  qed
qed (auto dest: readFlat_prefix readFixedLen_prefix)

text \<open>
  Claim C9. The repeated column's ReadRowAt is atomic on failure: whenever it returns an
  error (a negative or past-the-end index, a failed read of the base, no value or more
  than one value for an element), the row it returns is the caller's row, every value
  appended for the earlier elements of the region truncated away.
\<close>

theorem repeated_ReadRowAt_atomic:
  "ReadRowAt (RepeatedBufferColumn base maxRep maxDef rows reps defs buf reord ord) row index
     = Inr (row', Some err) \<Longrightarrow> row' = row"
proof -
  assume run: "ReadRowAt (RepeatedBufferColumn base maxRep maxDef rows reps defs buf reord ord)
     row index = Inr (row', Some err)"
  have read: "\<And>r k r' e. ReadRowAt base r k = Inr (r', e) \<Longrightarrow> prefix r r'"
    by (rule ReadRowAt_prefix)
  show ?thesis
  proof (cases "index <s 0 \<or> int (length rows) \<le> sint index")
    case True
    with run show ?thesis by (auto split: if_splits)
  next
    case False
    with run obtain lv where
      "repeatedReadLoop (\<lambda>r k. ReadRowAt base r k) maxDef (length row) index
         (offset (at rows index)) 0 lv row = Inr (row', Some err)"
      by (auto simp: Let_def split: sum.splits)
    from repeatedReadLoop_prefix [of "\<lambda>r k. ReadRowAt base r k", OF read this]
    show ?thesis by simp
  qed
qed

text \<open>
  A read that fails half way: the first element of the region is a null and is appended,
  the second is defined but the base holds no value for it.
\<close>

theorem repeated_ReadRowAt_atomic_witness:
  "ReadRowAt (RepeatedBufferColumn (Int32BufferColumn []) 1 1
       [\<lparr>offset = 0, length_region = 2\<rparr>] [0, 1] [0, 1] [] None NullsGoFirst)
     [makeValue (PInt32 5)] 0 = Inr ([makeValue (PInt32 5)], Some EOF)"
proof -
  have "\<exists>row'. ReadRowAt (RepeatedBufferColumn (Int32BufferColumn []) 1 1
       [\<lparr>offset = 0, length_region = 2\<rparr>] [0, 1] [0, 1] [] None NullsGoFirst)
     [makeValue (PInt32 5)] 0 = Inr (row', Some EOF)"
    by (simp add: at_def sliceOf_def readFlat_def truncated_def word_sless_alt)
  then obtain row' where run: "ReadRowAt (RepeatedBufferColumn (Int32BufferColumn []) 1 1
       [\<lparr>offset = 0, length_region = 2\<rparr>] [0, 1] [0, 1] [] None NullsGoFirst)
     [makeValue (PInt32 5)] 0 = Inr (row', Some EOF)" ..
  from repeated_ReadRowAt_atomic [OF run] run show ?thesis by simp
qed

subsection \<open>Swap of the repeated column\<close>

text \<open>
  Claim C7. For valid indexes \<open>i\<close> and \<open>j\<close>, Swap on a repeated column exchanges the
  two regions \<open>rows[i]\<close> and \<open>rows[j]\<close> and nothing else: the base column, the repetition
  levels, the definition levels and every other region are unchanged.
\<close>

theorem repeated_Swap_only_regions:
  assumes "inRange i rows" and "inRange j rows"
  shows "\<exists>rows'.
    Swap (RepeatedBufferColumn base maxRep maxDef rows reps defs buf reord ord) i j
      = Inr (RepeatedBufferColumn base maxRep maxDef rows' reps defs buf reord ord)
    \<and> length rows' = length rows
    \<and> at rows' i = at rows j \<and> at rows' j = at rows i
    \<and> (\<forall>k. k \<noteq> nat (sint i) \<and> k \<noteq> nat (sint j) \<longrightarrow> rows' ! k = rows ! k)"
proof -
  let ?rows = "rows[nat (sint i) := at rows j, nat (sint j) := at rows i]"
  from assms have i: "nat (sint i) < length rows" and j: "nat (sint j) < length rows"
    by (auto simp: inRange_def)
  have "Swap (RepeatedBufferColumn base maxRep maxDef rows reps defs buf reord ord) i j
      = Inr (RepeatedBufferColumn base maxRep maxDef ?rows reps defs buf reord ord)"
    using assms by (simp add: swapAt_def)
  moreover have "at ?rows i = at rows j" "at ?rows j = at rows i"
    using i j by (auto simp: at_def nth_list_update)
  moreover have "\<forall>k. k \<noteq> nat (sint i) \<and> k \<noteq> nat (sint j) \<longrightarrow> ?rows ! k = rows ! k"
    by simp
  ultimately show ?thesis by simp
qed

theorem repeated_Swap_only_regions_witness:
  "\<exists>rows'.
    Swap (RepeatedBufferColumn (Int32BufferColumn [1, 2, 3]) 1 1
            [\<lparr>offset = 0, length_region = 1\<rparr>, \<lparr>offset = 1, length_region = 2\<rparr>]
            [0, 0, 1] [1, 1, 1] [] None NullsGoFirst) 0 1
      = Inr (RepeatedBufferColumn (Int32BufferColumn [1, 2, 3]) 1 1 rows'
            [0, 0, 1] [1, 1, 1] [] None NullsGoFirst)
    \<and> at rows' 0 = \<lparr>offset = 1, length_region = 2\<rparr>
    \<and> at rows' 1 = \<lparr>offset = 0, length_region = 1\<rparr>"
proof -
  have i: "inRange 0 [\<lparr>offset = 0, length_region = 1\<rparr>, \<lparr>offset = 1, length_region = (2::uint32)\<rparr>]"
    by (simp add: inRange_def)
  have j: "inRange 1 [\<lparr>offset = 0, length_region = 1\<rparr>, \<lparr>offset = 1, length_region = (2::uint32)\<rparr>]"
    by (simp add: inRange_def)
  from repeated_Swap_only_regions [OF i j, of "Int32BufferColumn [1, 2, 3]" 1 1 "[0, 0, 1]"
      "[1, 1, 1]" "[]" None NullsGoFirst]
  show ?thesis by (auto simp: at_def)
qed

subsection \<open>Bounds of ReadRowAt\<close>

text \<open>
  Claim C6. A negative index is to give the index-out-of-bounds error on every column.
  The fixed-length byte array column tests the product \<open>index * size\<close> instead of the
  index: for the smallest \<open>int\<close> and size 2 the product wraps to 0, and the read returns
  the first stored value with no error.
\<close>

theorem fixedLen_ReadRowAt_min_index:
  "sint (- 9223372036854775808 :: goInt) < 0 \<and>
   ReadRowAt (FixedLenByteArrayBufferColumn 2 [1, 2]) [] (- 9223372036854775808)
     = Inr ([makeValue (PFixedLenByteArray [1, 2])], None)"
  by (simp add: readFixedLen_def word_sless_alt)

text \<open>
  The same wrap-around turns a past-the-end index into a bounds error instead of the end
  of stream. The other flat columns test the index itself.
\<close>

lemma fixedLen_ReadRowAt_large_index:
  "ReadRowAt (FixedLenByteArrayBufferColumn 2 [1, 2]) [] 4611686018427387904
     = Inr ([], Some (ErrRowIndexOutOfBounds 4611686018427387904 1))"
  by (simp add: readFixedLen_def word_sless_alt quo_def)

lemma readFlat_bounds:
  "index <s 0 \<Longrightarrow>
     readFlat mk vs row index = Inr (row, Some (ErrRowIndexOutOfBounds index (int (length vs))))"
  "\<not> index <s 0 \<Longrightarrow> int (length vs) \<le> sint index \<Longrightarrow> readFlat mk vs row index = Inr (row, Some EOF)"
  "inRange index vs \<Longrightarrow> readFlat mk vs row index = Inr (row @ [makeValue (mk (at vs index))], None)"
  by (auto simp: readFlat_def inRange_def word_sless_alt)

subsection \<open>The invariant of the repeated column\<close>

text \<open>
  The lengths of the regions add up to the number of repetition levels, which is the
  number of definition levels. The length of a region is a \<open>uint32\<close>; the sum is taken
  over the natural numbers the lengths stand for.
\<close>

definition repeatedInvariant :: "bufferColumn \<Rightarrow> bool" where
  "repeatedInvariant col =
     (case col of
        RepeatedBufferColumn base maxRep maxDef rows reps defs buf reord ord \<Rightarrow>
          sum_list (map (\<lambda>r. unat (length_region r)) rows) = length reps
          \<and> length reps = length defs
      | _ \<Rightarrow> False)"

lemma sum_list_swap:
  assumes "i < length xs" and "j < length xs"
  shows "sum_list (map f (xs[i := xs ! j, j := xs ! i])) = (sum_list (map f xs) :: nat)"
proof -
  have "mset (xs[i := xs ! j, j := xs ! i]) = mset xs"
    using assms by (simp add: mset_swap)
  then have "mset (map f (xs[i := xs ! j, j := xs ! i])) = mset (map f xs)"
    by (metis mset_map)
  then show ?thesis by (metis sum_mset_sum_list)
qed

lemma repeatedInvariant_new: "repeatedInvariant (newRepeatedBufferColumn base maxRep maxDef ord)"
  by (simp add: repeatedInvariant_def newRepeatedBufferColumn_def)

lemma repeatedInvariant_WriteRow:
  assumes "repeatedInvariant col" and "length row < 2 ^ 32"
  shows "repeatedInvariant (snd (WriteRow col row))"
proof -
  from assms(1) obtain base maxRep maxDef rows reps defs buf reord ord where
    col: "col = RepeatedBufferColumn base maxRep maxDef rows reps defs buf reord ord"
    by (cases col) (simp_all add: repeatedInvariant_def)
  have "fst (WriteRow base row) = None" by (rule WriteRow_no_error)
  then obtain base' where w: "WriteRow base row = (None, base')"
    by (cases "WriteRow base row") simp
  have "unat (of_nat (length row) :: uint32) = length row"
    using assms(2) by (simp add: unat_of_nat)
  with assms(1) col w show ?thesis
    by (simp add: repeatedInvariant_def row_region_def)
qed

lemma repeatedInvariant_Swap:
  assumes "repeatedInvariant col" and "Swap col i j = Inr col'"
  shows "repeatedInvariant col'"
proof -
  from assms(1) obtain base maxRep maxDef rows reps defs buf reord ord where
    col: "col = RepeatedBufferColumn base maxRep maxDef rows reps defs buf reord ord"
    by (cases col) (simp_all add: repeatedInvariant_def)
  from assms(2) col have r: "inRange i rows" "inRange j rows"
    by (auto simp: swapAt_def split: if_splits)
  then have "nat (sint i) < length rows" "nat (sint j) < length rows"
    by (auto simp: inRange_def)
  from sum_list_swap [OF this(1) this(2), of "\<lambda>r. unat (length_region r)"]
  have "sum_list (map (\<lambda>r. unat (length_region r))
          (rows[nat (sint i) := at rows j, nat (sint j) := at rows i]))
        = sum_list (map (\<lambda>r. unat (length_region r)) rows)"
    by (simp add: at_def)
  with assms col r show ?thesis
    by (auto simp: repeatedInvariant_def swapAt_def)
qed

lemma repeatedInvariant_Reset: "repeatedInvariant col \<Longrightarrow> repeatedInvariant (Reset col)"
  by (cases col) (simp_all add: repeatedInvariant_def)

lemma repeatedInvariant_Clone: "repeatedInvariant col \<Longrightarrow> repeatedInvariant (Clone col)"
  by (cases col) (simp_all add: repeatedInvariant_def)

text \<open>
  Claim C8, as the code has it. The invariant holds of a new repeated column; WriteRow
  preserves it for every row of fewer than \<open>2 ^ 32\<close> values; Swap (when its indexes are
  in range, so that it returns), Reset and Clone preserve it.
\<close>

theorem repeatedInvariant_preserved:
  "repeatedInvariant (newRepeatedBufferColumn base maxRep maxDef ord)
   \<and> (repeatedInvariant col \<and> length row < 2 ^ 32 \<longrightarrow> repeatedInvariant (snd (WriteRow col row)))
   \<and> (repeatedInvariant col \<and> Swap col i j = Inr col' \<longrightarrow> repeatedInvariant col')
   \<and> (repeatedInvariant col \<longrightarrow> repeatedInvariant (Reset col))
   \<and> (repeatedInvariant col \<longrightarrow> repeatedInvariant (Clone col))"
  using repeatedInvariant_new repeatedInvariant_WriteRow repeatedInvariant_Swap
    repeatedInvariant_Reset repeatedInvariant_Clone by blast

theorem repeatedInvariant_preserved_witness:
  "repeatedInvariant (RepeatedBufferColumn (Int32BufferColumn [1, 2, 3]) 1 1
      [\<lparr>offset = 0, length_region = 1\<rparr>, \<lparr>offset = 1, length_region = 2\<rparr>]
      [0, 0, 1] [1, 1, 1] [] None NullsGoFirst)
   \<and> length [makeValue (PInt32 4)] < (2::nat) ^ 32
   \<and> repeatedInvariant (snd (WriteRow (RepeatedBufferColumn (Int32BufferColumn [1, 2, 3]) 1 1
      [\<lparr>offset = 0, length_region = 1\<rparr>, \<lparr>offset = 1, length_region = 2\<rparr>]
      [0, 0, 1] [1, 1, 1] [] None NullsGoFirst) [makeValue (PInt32 4)]))
   \<and> Swap (RepeatedBufferColumn (Int32BufferColumn [1, 2, 3]) 1 1
      [\<lparr>offset = 0, length_region = 1\<rparr>, \<lparr>offset = 1, length_region = 2\<rparr>]
      [0, 0, 1] [1, 1, 1] [] None NullsGoFirst) 0 1
      = Inr (RepeatedBufferColumn (Int32BufferColumn [1, 2, 3]) 1 1
      [\<lparr>offset = 1, length_region = 2\<rparr>, \<lparr>offset = 0, length_region = 1\<rparr>]
      [0, 0, 1] [1, 1, 1] [] None NullsGoFirst)
   \<and> repeatedInvariant (RepeatedBufferColumn (Int32BufferColumn [1, 2, 3]) 1 1
      [\<lparr>offset = 1, length_region = 2\<rparr>, \<lparr>offset = 0, length_region = 1\<rparr>]
      [0, 0, 1] [1, 1, 1] [] None NullsGoFirst)"
proof -
  let ?c = "RepeatedBufferColumn (Int32BufferColumn [1, 2, 3]) 1 1
      [\<lparr>offset = 0, length_region = 1\<rparr>, \<lparr>offset = 1, length_region = 2\<rparr>]
      [0, 0, 1] [1, 1, 1] [] None NullsGoFirst"
  let ?c' = "RepeatedBufferColumn (Int32BufferColumn [1, 2, 3]) 1 1
      [\<lparr>offset = 1, length_region = 2\<rparr>, \<lparr>offset = 0, length_region = 1\<rparr>]
      [0, 0, 1] [1, 1, 1] [] None NullsGoFirst"
  have inv: "repeatedInvariant ?c" by (simp add: repeatedInvariant_def)
  have len: "length [makeValue (PInt32 4)] < (2::nat) ^ 32" by simp
  have sw: "Swap ?c 0 1 = Inr ?c'" by (simp add: swapAt_def inRange_def at_def)
  from repeatedInvariant_preserved [of "Int32BufferColumn []" 1 1 NullsGoFirst ?c
      "[makeValue (PInt32 4)]" 0 1 ?c'] inv len sw
  show ?thesis by blast
qed

text \<open>
  The length of a region is \<open>uint32(len(row))\<close>: a row of \<open>2 ^ 32\<close> values is recorded
  as a region of length 0 while \<open>2 ^ 32\<close> levels are appended, and the invariant is lost.
\<close>

theorem repeatedInvariant_huge_row:
  "repeatedInvariant (newRepeatedBufferColumn (Int32BufferColumn []) 1 1 NullsGoFirst)
   \<and> \<not> repeatedInvariant (snd (WriteRow
          (newRepeatedBufferColumn (Int32BufferColumn []) 1 1 NullsGoFirst)
          (replicate (2 ^ 32) zeroValue)))"
  by (simp add: repeatedInvariant_def newRepeatedBufferColumn_def row_region_def)

section \<open>Pages and null compaction\<close>

text \<open>
  Modelled from the spec: the page types, \<open>newOptionalPage\<close> and \<open>Page.Slice\<close> (file
  page.go is not part of the sources). The page of a flat column is a read-only view of
  its values, and the buffer column embeds it; an optional page wraps the page of the
  base, the maximum definition level and the definition levels. The contents of a page
  are taken when \<open>Page\<close> returns. \<open>Slice\<close> is modelled for the pages of the flat
  columns whose values are one array.
\<close>

datatype page =
    BooleanPage "bool list"
  | Int32Page "32 word list"
  | Int64Page "64 word list"
  | Int96Page "96 word list"
  | FloatPage "32 word list"
  | DoublePage "64 word list"
  | ByteArrayPage "8 word list list"
  | FixedLenByteArrayPage goInt "8 word list"
  | Uint32Page "32 word list"
  | Uint64Page "64 word list"
  | OptionalPage page int8 "int8 list"

fun pageSlice :: "page \<Rightarrow> nat \<Rightarrow> nat \<Rightarrow> panic + page" where
  "pageSlice (BooleanPage vs) i j = map_sum id BooleanPage (sliceOf vs i j)"
| "pageSlice (Int32Page vs) i j = map_sum id Int32Page (sliceOf vs i j)"
| "pageSlice (Int64Page vs) i j = map_sum id Int64Page (sliceOf vs i j)"
| "pageSlice (Int96Page vs) i j = map_sum id Int96Page (sliceOf vs i j)"
| "pageSlice (FloatPage vs) i j = map_sum id FloatPage (sliceOf vs i j)"
| "pageSlice (DoublePage vs) i j = map_sum id DoublePage (sliceOf vs i j)"
| "pageSlice (ByteArrayPage vs) i j = map_sum id ByteArrayPage (sliceOf vs i j)"
| "pageSlice (Uint32Page vs) i j = map_sum id Uint32Page (sliceOf vs i j)"
| "pageSlice (Uint64Page vs) i j = map_sum id Uint64Page (sliceOf vs i j)"

definition isNull :: "nat \<Rightarrow> int8 \<Rightarrow> int8 list \<Rightarrow> bool" where
  "isNull i maxDefinitionLevel definitionLevels \<longleftrightarrow> definitionLevels ! i \<noteq> maxDefinitionLevel"

function skipNulls :: "int8 \<Rightarrow> int8 list \<Rightarrow> nat \<Rightarrow> nat" where
  "skipNulls maxDef defs j =
     (if j < length defs \<and> isNull j maxDef defs then skipNulls maxDef defs (Suc j) else j)"
  by pat_completeness auto
termination
  by (relation "measure (\<lambda>(maxDef, defs, j). length defs - j)") auto

declare skipNulls.simps [simp del]

lemma skipNulls_ge: "j \<le> skipNulls maxDef defs j"
proof (induction maxDef defs j rule: skipNulls.induct)
  case (1 maxDef defs j)
  show ?case
  proof (cases "j < length defs \<and> isNull j maxDef defs")
    case True
    with "1.IH" have "Suc j \<le> skipNulls maxDef defs (Suc j)" by simp
    with True show ?thesis by (subst skipNulls.simps) simp
  next
    case False
    then show ?thesis by (subst skipNulls.simps) auto
  qed
qed

text \<open>
  The outer loop of \<open>rowGroupColumnPageWithoutNulls\<close>, with \<open>n\<close> the number of values
  moved to the front and \<open>i\<close> the scan position; the inner loop is \<open>skipNulls\<close>.
\<close>

function compactNulls ::
  "bufferColumn \<Rightarrow> int8 \<Rightarrow> int8 list \<Rightarrow> nat \<Rightarrow> nat \<Rightarrow> panic + (bufferColumn \<times> nat)" where
  "compactNulls column maxDef defs n i =
     (if i < length defs then
        (if skipNulls maxDef defs i < length defs then
           (case Swap column (of_nat n) (of_nat (skipNulls maxDef defs i)) of
              Inl p \<Rightarrow> Inl p
            | Inr column' \<Rightarrow>
                compactNulls column' maxDef defs (Suc n) (skipNulls maxDef defs i + 1))
         else compactNulls column maxDef defs n (skipNulls maxDef defs i + 1))
      else Inr (column, n))"
  by pat_completeness auto
termination
proof (relation "measure (\<lambda>(column, maxDef, defs, n, i). length defs - i)")
  show "wf (measure (\<lambda>(column, maxDef, defs, n, i). length defs - i))" by simp
next
  fix column x2 :: bufferColumn and maxDef :: int8 and defs :: "int8 list" and n i :: nat
  assume "i < length defs"
  with skipNulls_ge [of i maxDef defs]
  show "((x2, maxDef, defs, Suc n, skipNulls maxDef defs i + 1), column, maxDef, defs, n, i)
          \<in> measure (\<lambda>(column, maxDef, defs, n, i). length defs - i)"
    by simp
next
  fix column :: bufferColumn and maxDef :: int8 and defs :: "int8 list" and n i :: nat
  assume "i < length defs"
  with skipNulls_ge [of i maxDef defs]
  show "((column, maxDef, defs, n, skipNulls maxDef defs i + 1), column, maxDef, defs, n, i)
          \<in> measure (\<lambda>(column, maxDef, defs, n, i). length defs - i)"
    by simp
qed


declare compactNulls.simps [simp del]

text \<open>The number of wrappers around the flat column at the bottom.\<close>

fun nesting :: "bufferColumn \<Rightarrow> nat" where
  "nesting (ReversedBufferColumn base) = Suc (nesting base)"
| "nesting (OptionalBufferColumn base maxDef defs ord) = Suc (nesting base)"
| "nesting (RepeatedBufferColumn base maxRep maxDef rows reps defs buf reord ord) =
     Suc (nesting base)"
| "nesting col = 0"

lemma map_sum_id_Inr: "map_sum id f x = Inr y \<longleftrightarrow> (\<exists>z. x = Inr z \<and> y = f z)"
  by (cases x) auto

lemma Swap_nesting: "Swap col i j = Inr col' \<Longrightarrow> nesting col' = nesting col"
proof (induction col arbitrary: col')
  case (OptionalBufferColumn base maxDef defs ord)
  then show ?case by (cases "Swap base i j") (auto simp: map_sum_id_Inr)
qed (auto simp: map_sum_id_Inr)

lemma compactNulls_nesting:
  "compactNulls column maxDef defs n i = Inr (column', k) \<Longrightarrow> nesting column' = nesting column"
proof (induction column maxDef defs n i rule: compactNulls.induct)
  case (1 column maxDef defs n i)
  note run = "1.prems" [unfolded compactNulls.simps [of column maxDef defs n i]]
  show ?case
  proof (cases "i < length defs")
    case False
    with run show ?thesis by simp
  next
    case True
    show ?thesis
    proof (cases "skipNulls maxDef defs i < length defs")
      case False
      with True run have
        "compactNulls column maxDef defs n (skipNulls maxDef defs i + 1) = Inr (column', k)"
        by simp
      from "1.IH"(2) [OF True False this] show ?thesis .
    next
      case lt: True
      show ?thesis
      proof (cases "Swap column (of_nat n) (of_nat (skipNulls maxDef defs i))")
        case (Inl p)
        with True lt run show ?thesis by simp
      next
        case (Inr c1)
        with True lt run have
          "compactNulls c1 maxDef defs (Suc n) (skipNulls maxDef defs i + 1) = Inr (column', k)"
          by simp
        from "1.IH"(1) [OF True lt Inr this] Swap_nesting [OF Inr] show ?thesis by simp
      qed
    qed
  qed
qed

text \<open>
  \<open>Page\<close> returns the page and the column as the call leaves it: the compaction swaps
  the values of the base in place. The page of the repeated column reads the base page
  back with \<open>ReadValuesAt\<close>, which is not in the sources; it is left unspecified.
\<close>

function Page :: "bufferColumn \<Rightarrow> panic + (page \<times> bufferColumn)" where
  "Page (BooleanBufferColumn vs) = Inr (BooleanPage vs, BooleanBufferColumn vs)"
| "Page (Int32BufferColumn vs) = Inr (Int32Page vs, Int32BufferColumn vs)"
| "Page (Int64BufferColumn vs) = Inr (Int64Page vs, Int64BufferColumn vs)"
| "Page (Int96BufferColumn vs) = Inr (Int96Page vs, Int96BufferColumn vs)"
| "Page (FloatBufferColumn vs) = Inr (FloatPage vs, FloatBufferColumn vs)"
| "Page (DoubleBufferColumn vs) = Inr (DoublePage vs, DoubleBufferColumn vs)"
| "Page (ByteArrayBufferColumn vs) = Inr (ByteArrayPage vs, ByteArrayBufferColumn vs)"
| "Page (FixedLenByteArrayBufferColumn sz dat) =
     Inr (FixedLenByteArrayPage sz dat, FixedLenByteArrayBufferColumn sz dat)"
| "Page (Uint32BufferColumn vs) = Inr (Uint32Page vs, Uint32BufferColumn vs)"
| "Page (Uint64BufferColumn vs) = Inr (Uint64Page vs, Uint64BufferColumn vs)"
| "Page (ReversedBufferColumn base) =
     (case Page base of Inl p \<Rightarrow> Inl p | Inr (pg, base') \<Rightarrow> Inr (pg, ReversedBufferColumn base'))"
| "Page (OptionalBufferColumn base maxDef defs ord) =
     (case compactNulls base maxDef defs 0 0 of
        Inl p \<Rightarrow> Inl p
      | Inr (base1, n) \<Rightarrow>
          (case Page base1 of
             Inl p \<Rightarrow> Inl p
           | Inr (pg, base2) \<Rightarrow>
               (case pageSlice pg 0 n of
                  Inl p \<Rightarrow> Inl p
                | Inr sliced \<Rightarrow>
                    Inr (OptionalPage sliced maxDef defs,
                         OptionalBufferColumn base2 maxDef defs ord))))"
| "Page (RepeatedBufferColumn base maxRep maxDef rows reps defs buf reord ord) = undefined"
  by pat_completeness auto
termination
proof (relation "measure nesting")
  show "wf (measure nesting)" by simp
next
  fix base show "(base, ReversedBufferColumn base) \<in> measure nesting" by simp
next
  fix base :: bufferColumn and maxDef :: int8 and defs :: "int8 list" and ord :: nullOrdering
    and x2 :: "bufferColumn \<times> nat" and x1 :: bufferColumn and y :: nat
  assume "compactNulls base maxDef defs 0 0 = Inr x2" and "(x1, y) = x2"
  then have "compactNulls base maxDef defs 0 0 = Inr (x1, y)" by simp
  from compactNulls_nesting [OF this]
  show "(x1, OptionalBufferColumn base maxDef defs ord) \<in> measure nesting" by simp
qed

subsection \<open>Page is not idempotent\<close>

text \<open>
  An optional int32 column after writing a null and then the value 7: the base holds a
  zero placeholder for the null.
\<close>

lemma optional_column_written:
  "snd (WriteRow (snd (WriteRow (newOptionalBufferColumn (Int32BufferColumn []) 1 NullsGoLast)
          [zeroValue])) [(makeValue (PInt32 7))\<lparr>definitionLevel := 1\<rparr>])
   = OptionalBufferColumn (Int32BufferColumn [0, 7]) 1 [0, 1] NullsGoLast"
  by (simp add: newOptionalBufferColumn_def valueInt32_def zeroValue_def makeValue_def
      DefinitionLevel_def)

text \<open>
  Claim C4. Two calls of \<open>Page\<close> in a row are to give equal pages. The first call moves
  the 7 to the front of the base and returns a page holding 7. The definition levels
  still say that the second slot is the defined one, so the second call swaps the
  placeholder back to the front and returns a page holding the placeholder 0.
\<close>

theorem optional_Page_twice:
  "Page (OptionalBufferColumn (Int32BufferColumn [0, 7]) 1 [0, 1] NullsGoLast)
     = Inr (OptionalPage (Int32Page [7]) 1 [0, 1],
            OptionalBufferColumn (Int32BufferColumn [7, 0]) 1 [0, 1] NullsGoLast)
   \<and> Page (OptionalBufferColumn (Int32BufferColumn [7, 0]) 1 [0, 1] NullsGoLast)
     = Inr (OptionalPage (Int32Page [0]) 1 [0, 1],
            OptionalBufferColumn (Int32BufferColumn [0, 7]) 1 [0, 1] NullsGoLast)"
  by (simp add: compactNulls.simps skipNulls.simps isNull_def swapAt_def inRange_def at_def
      sliceOf_def)


section \<open>Schemas and host values\<close>

text \<open>
  Modelled from the spec: the schema node (the interface \<open>Node\<close> and the helpers
  \<open>Required\<close>, \<open>Repeated\<close>, \<open>isList\<close>, \<open>isMap\<close>, \<open>isLeaf\<close>, \<open>listElementOf\<close> and
  \<open>mapKeyValueOf\<close> are not part of the sources). A node is required, optional or
  repeated and is a leaf of a physical kind, a group of named children, a list of an
  element or a map. The compilers use a map node through
  \<open>mapKeyValueOf(node).GoType()\<close> only, the Go type of a slice of key-value structs, and
  compile \<open>schemaOf(keyValueElem)\<close>, the schema which the schema-inference layer
  derives from the type of that struct. That layer is not part of the sources and the
  spec leaves it out of its scope, so a map node carries the two field types of its
  key-value struct and the schema derived from the struct.

  A host value is what the code reaches through \<open>reflect.Value\<close>: the invalid value,
  a scalar, a byte, a pointer (nil or not), a slice (nil or not), a struct or a map (nil
  or not). A host scalar has the Go type of its physical kind: \<open>bool\<close>, \<open>int32\<close>,
  \<open>int64\<close>, the 12 bytes of an \<open>int96\<close>, \<open>float32\<close>, \<open>float64\<close>, \<open>string\<close> for a byte
  array, and a byte array of fixed length; a slice of bytes is a slice as any other. A
  map value is the list of its entries in the order in which \<open>MapKeys\<close> enumerates
  them. A host type is what \<open>reflect.Type\<close> gives for a destination.
\<close>

datatype kind = Boolean | Int32 | Int64 | Int96 | Float | Double | ByteArray | FixedLenByteArray

fun kindOf :: "payload \<Rightarrow> kind option" where
  "kindOf Null = None"
| "kindOf (PBoolean b) = Some Boolean"
| "kindOf (PInt32 x) = Some Int32"
| "kindOf (PInt64 x) = Some Int64"
| "kindOf (PInt96 x) = Some Int96"
| "kindOf (PFloat x) = Some Float"
| "kindOf (PDouble x) = Some Double"
| "kindOf (PByteArray b) = Some ByteArray"
| "kindOf (PFixedLenByteArray b) = Some FixedLenByteArray"

datatype repetition = RequiredNode | OptionalNode | RepeatedNode

datatype htype =
    TScalar kind
  | TFixedLen nat
  | TByte
  | TPtr htype
  | TSlice htype
  | TStruct "htype list"
  | TMap htype htype

datatype node =
    Leaf repetition kind
  | Group repetition "(string \<times> node) list"
  | ListOf repetition node
  | MapOf repetition node htype htype

fun repetitionOf :: "node \<Rightarrow> repetition" where
  "repetitionOf (Leaf r k) = r"
| "repetitionOf (Group r cs) = r"
| "repetitionOf (ListOf r e) = r"
| "repetitionOf (MapOf r kv kt vt) = r"

fun withRepetition :: "repetition \<Rightarrow> node \<Rightarrow> node" where
  "withRepetition r (Leaf r0 k) = Leaf r k"
| "withRepetition r (Group r0 cs) = Group r cs"
| "withRepetition r (ListOf r0 e) = ListOf r e"
| "withRepetition r (MapOf r0 kv kt vt) = MapOf r kv kt vt"

definition Optional :: "node \<Rightarrow> bool" where
  "Optional n \<longleftrightarrow> repetitionOf n = OptionalNode"

definition isRepeated :: "node \<Rightarrow> bool" where
  "isRepeated n \<longleftrightarrow> repetitionOf n = RepeatedNode"

definition Required :: "node \<Rightarrow> node" where
  "Required n = withRepetition RequiredNode n"

definition Repeated :: "node \<Rightarrow> node" where
  "Repeated n = withRepetition RepeatedNode n"

fun isList :: "node \<Rightarrow> bool" where
  "isList (ListOf r e) = True"
| "isList n = False"

fun isMap :: "node \<Rightarrow> bool" where
  "isMap (MapOf r kv kt vt) = True"
| "isMap n = False"

fun isLeaf :: "node \<Rightarrow> bool" where
  "isLeaf (Leaf r k) = True"
| "isLeaf n = False"

fun listElementOf :: "node \<Rightarrow> node" where
  "listElementOf (ListOf r e) = e"
| "listElementOf n = n"

text \<open>
  For a map node: \<open>keyValueElem.Field(0).Type\<close> and \<open>keyValueElem.Field(1).Type\<close>, where
  \<open>keyValueElem\<close> is \<open>mapKeyValueOf(node).GoType().Elem()\<close>, and \<open>schemaOf(keyValueElem)\<close>.
\<close>

fun keyTypeOf :: "node \<Rightarrow> htype" where
  "keyTypeOf (MapOf r kv kt vt) = kt"
| "keyTypeOf n = TScalar Boolean"

fun valueTypeOf :: "node \<Rightarrow> htype" where
  "valueTypeOf (MapOf r kv kt vt) = vt"
| "valueTypeOf n = TScalar Boolean"

fun schemaOfKeyValueElem :: "node \<Rightarrow> node" where
  "schemaOfKeyValueElem (MapOf r kv kt vt) = kv"
| "schemaOfKeyValueElem n = n"

fun children :: "node \<Rightarrow> (string \<times> node) list" where
  "children (Group r cs) = cs"
| "children n = []"

fun kindOfNode :: "node \<Rightarrow> kind" where
  "kindOfNode (Leaf r k) = k"
| "kindOfNode n = Boolean"

datatype hvalue =
    Invalid
  | Scalar payload
  | Byte "8 word"
  | Ptr "hvalue option"
  | Slice "hvalue list option"
  | Struct "hvalue list"
  | MapV "(hvalue \<times> hvalue) list option"

fun zeroPayload :: "kind \<Rightarrow> payload" where
  "zeroPayload Boolean = PBoolean False"
| "zeroPayload Int32 = PInt32 0"
| "zeroPayload Int64 = PInt64 0"
| "zeroPayload Int96 = PInt96 0"
| "zeroPayload Float = PFloat 0"
| "zeroPayload Double = PDouble 0"
| "zeroPayload ByteArray = PByteArray []"
| "zeroPayload FixedLenByteArray = PFixedLenByteArray []"

fun Zero :: "htype \<Rightarrow> hvalue" where
  "Zero (TScalar k) = Scalar (zeroPayload k)"
| "Zero (TFixedLen n) = Scalar (PFixedLenByteArray (replicate n 0))"
| "Zero TByte = Byte 0"
| "Zero (TPtr t) = Ptr None"
| "Zero (TSlice t) = Slice None"
| "Zero (TStruct ts) = Struct (map Zero ts)"
| "Zero (TMap k v) = MapV None"

text \<open>
  \<open>reflect.Value.IsZero\<close>: a number is zero when all its bits are, a string when it is
  empty, an array or a struct when all its elements or fields are, a pointer, a slice or
  a map when it is nil. An empty slice that is not nil is not zero.
\<close>

fun IsValid :: "hvalue \<Rightarrow> bool" where
  "IsValid Invalid = False"
| "IsValid v = True"

fun payloadIsZero :: "payload \<Rightarrow> bool" where
  "payloadIsZero Null = True"
| "payloadIsZero (PBoolean b) = (\<not> b)"
| "payloadIsZero (PInt32 x) = (x = 0)"
| "payloadIsZero (PInt64 x) = (x = 0)"
| "payloadIsZero (PInt96 x) = (x = 0)"
| "payloadIsZero (PFloat x) = (x = 0)"
| "payloadIsZero (PDouble x) = (x = 0)"
| "payloadIsZero (PByteArray b) = (b = [])"
| "payloadIsZero (PFixedLenByteArray b) = list_all (\<lambda>x. x = 0) b"

fun IsZero :: "hvalue \<Rightarrow> bool" where
  "IsZero Invalid = False"
| "IsZero (Scalar p) = payloadIsZero p"
| "IsZero (Byte b) = (b = 0)"
| "IsZero (Ptr p) = (p = None)"
| "IsZero (Slice xs) = (xs = None)"
| "IsZero (Struct fs) = list_all IsZero fs"
| "IsZero (MapV m) = (m = None)"

text \<open>The values of a host type.\<close>

fun hasType :: "htype \<Rightarrow> hvalue \<Rightarrow> bool" where
  "hasType (TScalar k) (Scalar p) = (kindOf p = Some k \<and> k \<noteq> FixedLenByteArray)"
| "hasType (TFixedLen n) (Scalar (PFixedLenByteArray b)) = (length b = n)"
| "hasType TByte (Byte b) = True"
| "hasType (TPtr t) (Ptr None) = True"
| "hasType (TPtr t) (Ptr (Some x)) = hasType t x"
| "hasType (TSlice t) (Slice None) = True"
| "hasType (TSlice t) (Slice (Some xs)) = list_all (hasType t) xs"
| "hasType (TStruct ts) (Struct fs) = list_all2 hasType ts fs"
| "hasType (TMap kt vt) (MapV None) = True"
| "hasType (TMap kt vt) (MapV (Some m)) =
     list_all (\<lambda>e. hasType kt (fst e) \<and> hasType vt (snd e)) m"
| "hasType t v = False"

text \<open>
  Go's \<open>==\<close> on the values that may be the keys of a map. Floats are compared as IEEE
  754 numbers: a NaN is equal to nothing, not even to itself, and the two zeros are
  equal. Host pointers have no address here: two pointers are taken to be equal when
  they point to the same value.
\<close>

definition isNaN32 :: "32 word \<Rightarrow> bool" where
  "isNaN32 x \<longleftrightarrow> x AND 0x7F800000 = 0x7F800000 \<and> x AND 0x007FFFFF \<noteq> 0"

definition isNaN64 :: "64 word \<Rightarrow> bool" where
  "isNaN64 x \<longleftrightarrow> x AND 0x7FF0000000000000 = 0x7FF0000000000000 \<and> x AND 0x000FFFFFFFFFFFFF \<noteq> 0"

fun payloadEqual :: "payload \<Rightarrow> payload \<Rightarrow> bool" where
  "payloadEqual (PFloat a) (PFloat b) =
     (\<not> isNaN32 a \<and> \<not> isNaN32 b \<and> (a = b \<or> (a AND 0x7FFFFFFF = 0 \<and> b AND 0x7FFFFFFF = 0)))"
| "payloadEqual (PDouble a) (PDouble b) =
     (\<not> isNaN64 a \<and> \<not> isNaN64 b
      \<and> (a = b \<or> (a AND 0x7FFFFFFFFFFFFFFF = 0 \<and> b AND 0x7FFFFFFFFFFFFFFF = 0)))"
| "payloadEqual p q = (p = q)"

fun goEqual :: "hvalue \<Rightarrow> hvalue \<Rightarrow> bool" where
  "goEqual (Scalar p) (Scalar q) = payloadEqual p q"
| "goEqual (Byte a) (Byte b) = (a = b)"
| "goEqual (Ptr p) (Ptr q) = (p = q)"
| "goEqual (Struct fs) (Struct gs) = list_all2 goEqual fs gs"
| "goEqual v w = False"

text \<open>
  \<open>MapKeys\<close>, \<open>MapIndex\<close> and \<open>SetMapIndex\<close> of \<open>reflect.Value\<close>. \<open>MapIndex\<close> gives the
  value of the entry whose key is equal to the given key, and the invalid value when
  there is none. \<open>SetMapIndex\<close> overwrites the entry of an equal key and adds an entry
  otherwise. \<open>Convert\<close> panics on the invalid value and is the identity on a value that
  has the type already; the conversions between different types are not modelled and
  taken to panic.
\<close>

fun MapKeys :: "hvalue \<Rightarrow> panic + hvalue list" where
  "MapKeys (MapV None) = Inr []"
| "MapKeys (MapV (Some m)) = Inr (map fst m)"
| "MapKeys v = Inl ReflectPanic"

fun MapIndex :: "hvalue \<Rightarrow> hvalue \<Rightarrow> panic + hvalue" where
  "MapIndex (MapV None) k = Inr Invalid"
| "MapIndex (MapV (Some m)) k =
     Inr (case find (\<lambda>e. goEqual (fst e) k) m of Some e \<Rightarrow> snd e | None \<Rightarrow> Invalid)"
| "MapIndex v k = Inl ReflectPanic"

fun SetMapIndex :: "(hvalue \<times> hvalue) list \<Rightarrow> hvalue \<Rightarrow> hvalue \<Rightarrow> (hvalue \<times> hvalue) list" where
  "SetMapIndex [] k x = [(k, x)]"
| "SetMapIndex (e # m) k x = (if goEqual (fst e) k then (k, x) # m else e # SetMapIndex m k x)"

definition Convert :: "htype \<Rightarrow> hvalue \<Rightarrow> panic + hvalue" where
  "Convert t v = (if hasType t v then Inr v else Inl ReflectPanic)"

section \<open>Deconstruction\<close>

record levels =
  repetitionDepth :: int8
  repetitionLevel' :: int8
  definitionLevel' :: int8

definition startsWith :: "Row \<Rightarrow> int \<Rightarrow> bool" where
  "startsWith row colIndex \<longleftrightarrow> length row > 0 \<and> sint (ColumnIndex (hd row)) = colIndex"

type_synonym deconstructFunc = "Row \<Rightarrow> levels \<Rightarrow> hvalue \<Rightarrow> panic + Row"

text \<open>
  Modelled from the spec: \<open>makeValue\<close> (not part of the sources) gives the value of the
  node's physical kind for a host scalar of that kind, and the byte array value of a
  slice of bytes (the empty one for a nil slice). Any other host value is taken to panic.
\<close>

fun byteOf :: "hvalue \<Rightarrow> 8 word option" where
  "byteOf (Byte b) = Some b"
| "byteOf v = None"

fun bytesOf :: "hvalue \<Rightarrow> 8 word list option" where
  "bytesOf (Slice None) = Some []"
| "bytesOf (Slice (Some xs)) =
     (if list_all (\<lambda>x. byteOf x \<noteq> None) xs then Some (map (\<lambda>x. the (byteOf x)) xs) else None)"
| "bytesOf v = None"

definition makeValueOf :: "kind \<Rightarrow> hvalue \<Rightarrow> panic + Value" where
  "makeValueOf k value =
     (case value of
        Scalar p \<Rightarrow> if kindOf p = Some k then Inr (makeValue p) else Inl ReflectPanic
      | Slice xs \<Rightarrow>
          (case bytesOf value of
             Some b \<Rightarrow> if k = ByteArray then Inr (makeValue (PByteArray b)) else Inl ReflectPanic
           | None \<Rightarrow> Inl ReflectPanic)
      | _ \<Rightarrow> Inl ReflectPanic)"

definition deconstructLeaf :: "kind \<Rightarrow> int8 \<Rightarrow> deconstructFunc" where
  "deconstructLeaf k valueColumnIndex row levels value =
     (case (if IsValid value then makeValueOf k value else Inr zeroValue) of
        Inl p \<Rightarrow> Inl p
      | Inr v \<Rightarrow>
          Inr (row @ [v\<lparr>repetitionLevel := repetitionLevel' levels,
                        definitionLevel := definitionLevel' levels,
                        columnIndex := valueColumnIndex\<rparr>]))"

definition deconstructOptional :: "deconstructFunc \<Rightarrow> deconstructFunc" where
  "deconstructOptional deconstruct row levels value =
     (if IsValid value then
        (if IsZero value then deconstruct row levels Invalid
         else deconstruct row (levels\<lparr>definitionLevel' := definitionLevel' levels + 1\<rparr>)
                (case value of Ptr (Some x) \<Rightarrow> x | _ \<Rightarrow> value))
      else deconstruct row levels value)"

fun Len :: "hvalue \<Rightarrow> panic + nat" where
  "Len (Slice None) = Inr 0"
| "Len (Slice (Some xs)) = Inr (length xs)"
| "Len (MapV None) = Inr 0"
| "Len (MapV (Some m)) = Inr (length m)"
| "Len v = Inl ReflectPanic"

fun Index :: "hvalue \<Rightarrow> nat \<Rightarrow> panic + hvalue" where
  "Index (Slice (Some xs)) i = (if i < length xs then Inr (xs ! i) else Inl ReflectPanic)"
| "Index v i = Inl ReflectPanic"

text \<open>
  The element loop of the repeated deconstructor: \<open>i\<close> runs from its value up to
  \<open>numValues\<close>.
\<close>

function deconstructElements ::
  "deconstructFunc \<Rightarrow> hvalue \<Rightarrow> nat \<Rightarrow> nat \<Rightarrow> Row \<Rightarrow> levels \<Rightarrow> panic + Row" where
  "deconstructElements deconstruct value numValues i row levels =
     (if i < numValues then
        (case Index value i of
           Inl p \<Rightarrow> Inl p
         | Inr x \<Rightarrow>
             (case deconstruct row levels x of
                Inl p \<Rightarrow> Inl p
              | Inr row' \<Rightarrow>
                  deconstructElements deconstruct value numValues (Suc i) row'
                    (levels\<lparr>repetitionLevel' := repetitionDepth levels\<rparr>)))
      else Inr row)"
  by pat_completeness auto
termination
  by (relation "measure (\<lambda>(d, v, numValues, i, row, levels). numValues - i)") auto

declare deconstructElements.simps [simp del]

definition deconstructRepeated :: "deconstructFunc \<Rightarrow> deconstructFunc" where
  "deconstructRepeated deconstruct row levels value =
     (case (if IsValid value then Len value else Inr 0) of
        Inl p \<Rightarrow> Inl p
      | Inr numValues \<Rightarrow>
          (let levels1 = (if IsValid value
                 then levels\<lparr>repetitionDepth := repetitionDepth levels + 1\<rparr> else levels);
               levels2 = (if IsValid value \<and> numValues > 0
                 then levels1\<lparr>definitionLevel' := definitionLevel' levels1 + 1\<rparr> else levels1)
           in if numValues = 0 then deconstruct row levels2 Invalid
              else deconstructElements deconstruct value numValues 0 row levels2))"

text \<open>
  Modelled from the spec: \<open>Node.ValueByName\<close> and \<open>IndexedNode.ValueByIndex\<close>, the
  value extractor of a group, which given a group value and a child index returns the
  child value. The group value is a struct whose fields are in the order of the children.
\<close>

fun valueByIndex :: "hvalue \<Rightarrow> nat \<Rightarrow> panic + hvalue" where
  "valueByIndex (Struct fs) i = (if i < length fs then Inr (fs ! i) else Inl ReflectPanic)"
| "valueByIndex v i = Inl ReflectPanic"

text \<open>The loop \<open>for i, f := range funcs\<close> of the group deconstructor, from index \<open>i\<close>.\<close>

fun deconstructFields ::
  "deconstructFunc list \<Rightarrow> hvalue \<Rightarrow> nat \<Rightarrow> Row \<Rightarrow> levels \<Rightarrow> panic + Row" where
  "deconstructFields [] value i row levels = Inr row"
| "deconstructFields (f # funcs) value i row levels =
     (case (if IsValid value then valueByIndex value i else Inr value) of
        Inl p \<Rightarrow> Inl p
      | Inr x \<Rightarrow>
          (case f row levels x of
             Inl p \<Rightarrow> Inl p
           | Inr row' \<Rightarrow> deconstructFields funcs value (Suc i) row' levels))"

definition deconstructGroup :: "deconstructFunc list \<Rightarrow> deconstructFunc" where
  "deconstructGroup funcs row levels value = deconstructFields funcs value 0 row levels"

text \<open>
  The map deconstructor makes a slice of key-value structs of the length of the map and
  fills it, for each key that \<open>MapKeys\<close> enumerates, with the key and with the value
  that \<open>MapIndex\<close> finds for the key, both converted to the field types of the struct.
  \<open>copyEntries\<close> is the loop over the keys, \<open>i\<close> the index of the next struct.
\<close>

fun setField :: "hvalue \<Rightarrow> nat \<Rightarrow> hvalue \<Rightarrow> hvalue" where
  "setField (Struct fs) i x = Struct (fs[i := x])"
| "setField v i x = v"

fun copyEntries ::
  "htype \<Rightarrow> htype \<Rightarrow> hvalue \<Rightarrow> hvalue list \<Rightarrow> nat \<Rightarrow> hvalue list \<Rightarrow> panic + hvalue list" where
  "copyEntries keyType valueType mapValue [] i keyValueSlice = Inr keyValueSlice"
| "copyEntries keyType valueType mapValue (mapKey # keys) i keyValueSlice =
     (if i < length keyValueSlice then
        (case Convert keyType mapKey of
           Inl p \<Rightarrow> Inl p
         | Inr k \<Rightarrow>
             (case MapIndex mapValue mapKey of
                Inl p \<Rightarrow> Inl p
              | Inr found \<Rightarrow>
                  (case Convert valueType found of
                     Inl p \<Rightarrow> Inl p
                   | Inr x \<Rightarrow>
                       copyEntries keyType valueType mapValue keys (Suc i)
                         (keyValueSlice[i := setField (setField (keyValueSlice ! i) 0 k) 1 x]))))
      else Inl ReflectPanic)"

definition deconstructMap :: "htype \<Rightarrow> htype \<Rightarrow> deconstructFunc \<Rightarrow> deconstructFunc" where
  "deconstructMap keyType valueType deconstruct row levels mapValue =
     (if \<not> IsValid mapValue then deconstruct row levels Invalid
      else
        (case Len mapValue of
           Inl p \<Rightarrow> Inl p
         | Inr n \<Rightarrow>
             (case MapKeys mapValue of
                Inl p \<Rightarrow> Inl p
              | Inr keys \<Rightarrow>
                  (case copyEntries keyType valueType mapValue keys 0
                          (replicate n (Zero (TStruct [keyType, valueType]))) of
                     Inl p \<Rightarrow> Inl p
                   | Inr keyValueSlice \<Rightarrow> deconstruct row levels (Slice (Some keyValueSlice))))))"

definition MaxColumnIndex :: int where
  "MaxColumnIndex = 127"

definition deconstructFuncOfLeaf :: "int \<Rightarrow> node \<Rightarrow> panic + (int \<times> deconstructFunc)" where
  "deconstructFuncOfLeaf colIndex node =
     (if colIndex > MaxColumnIndex then Inl TooManyColumns
      else Inr (colIndex + 1,
                deconstructLeaf (kindOfNode node) (NOT (word_of_int colIndex))))"

fun nodeSize :: "node \<Rightarrow> nat" where
  "nodeSize (Leaf r k) = 1"
| "nodeSize (Group r cs) = 1 + sum_list (map (\<lambda>c. nodeSize (snd c)) cs)"
| "nodeSize (ListOf r e) = 1 + nodeSize e"
| "nodeSize (MapOf r kv kt vt) = 3 + nodeSize kv"

lemma nodeSize_withRepetition [simp]: "nodeSize (withRepetition r n) = nodeSize n"
  by (cases n) simp_all

lemma nodeSize_pos [simp]: "0 < nodeSize n"
  by (cases n) simp_all

definition nodeMeasure :: "node \<Rightarrow> nat" where
  "nodeMeasure n = 3 * nodeSize n + (if repetitionOf n = RequiredNode then 0 else 1)"

definition childrenMeasure :: "(string \<times> node) list \<Rightarrow> nat" where
  "childrenMeasure cs = 3 * sum_list (map (\<lambda>c. nodeSize (snd c)) cs) + 2"

lemma repetitionOf_withRepetition [simp]: "repetitionOf (withRepetition r n) = r"
  by (cases n) simp_all

function deconstructFuncOf :: "int \<Rightarrow> node \<Rightarrow> panic + (int \<times> deconstructFunc)"
  and deconstructFuncsOf :: "int \<Rightarrow> (string \<times> node) list \<Rightarrow> panic + (int \<times> deconstructFunc list)"
where
  "deconstructFuncOf colIndex node =
     (if Optional node then
        map_sum id (\<lambda>(c, deconstruct). (c, deconstructOptional deconstruct))
          (deconstructFuncOf colIndex (Required node))
      else if isRepeated node then
        map_sum id (\<lambda>(c, deconstruct). (c, deconstructRepeated deconstruct))
          (deconstructFuncOf colIndex (Required node))
      else if isList node then
        deconstructFuncOf colIndex (Repeated (listElementOf node))
      else if isMap node then
        map_sum id
          (\<lambda>(c, deconstruct). (c, deconstructMap (keyTypeOf node) (valueTypeOf node) deconstruct))
          (deconstructFuncOf colIndex (Repeated (schemaOfKeyValueElem node)))
      else if isLeaf node then deconstructFuncOfLeaf colIndex node
      else
        map_sum id (\<lambda>(c, funcs). (c, deconstructGroup funcs))
          (deconstructFuncsOf colIndex (children node)))"
| "deconstructFuncsOf colIndex [] = Inr (colIndex, [])"
| "deconstructFuncsOf colIndex (child # rest) =
     (case deconstructFuncOf colIndex (snd child) of
        Inl p \<Rightarrow> Inl p
      | Inr (c, f) \<Rightarrow>
          map_sum id (\<lambda>(c', funcs). (c', f # funcs)) (deconstructFuncsOf c rest))"
  by pat_completeness auto
termination
proof (relation "measure (\<lambda>x. case x of Inl (c, n) \<Rightarrow> nodeMeasure n | Inr (c, cs) \<Rightarrow> childrenMeasure cs)")
  show "wf (measure (\<lambda>x. case x of Inl (c, n) \<Rightarrow> nodeMeasure n | Inr (c, cs) \<Rightarrow> childrenMeasure cs))"
    by simp
qed (auto simp: nodeMeasure_def childrenMeasure_def Optional_def isRepeated_def Required_def
      Repeated_def elim!: isList.elims isMap.elims isLeaf.elims split: node.splits)

declare deconstructFuncOf.simps [simp del]

definition zeroLevels :: levels where
  "zeroLevels = \<lparr>repetitionDepth = 0, repetitionLevel' = 0, definitionLevel' = 0\<rparr>"

text \<open>The deconstructor of a schema, applied to a record from the initial levels.\<close>

definition deconstructRow :: "node \<Rightarrow> hvalue \<Rightarrow> panic + Row" where
  "deconstructRow schema value =
     (case deconstructFuncOf 0 schema of
        Inl p \<Rightarrow> Inl p
      | Inr (c, deconstruct) \<Rightarrow> deconstruct [] zeroLevels value)"

text \<open>A value with its true column index, its levels and its payload.\<close>

definition leveled :: "int8 \<Rightarrow> int8 \<Rightarrow> int8 \<Rightarrow> payload \<Rightarrow> Value" where
  "leveled col r d p =
     \<lparr>payload = p, repetitionLevel = r, definitionLevel = d, columnIndex = NOT col\<rparr>"


section \<open>Reconstruction\<close>

text \<open>
  A reconstructor writes into a destination slot, given here as its host type and its
  current contents, and returns the new contents of the slot, the unconsumed rest of the
  row and the error. The outer option is \<open>None\<close> when the call does not return.
\<close>

type_synonym reconstructResult = "(panic + (hvalue \<times> Row \<times> error option)) option"
type_synonym reconstructFunc = "htype \<Rightarrow> hvalue \<Rightarrow> levels \<Rightarrow> Row \<Rightarrow> reconstructResult"

text \<open>
  Modelled from the spec: \<open>assignValue\<close> (not part of the sources), which converts the
  payload into the destination slot. A null value zeroes the slot; a payload of the kind
  of the slot is stored, a byte array also into a slice of bytes; any other payload is a
  conversion error.
\<close>

definition assignValue :: "htype \<Rightarrow> hvalue \<Rightarrow> Value \<Rightarrow> hvalue \<times> error option" where
  "assignValue t v src =
     (if payload src = Null then (Zero t, None)
      else
        (case t of
           TScalar k \<Rightarrow>
             if kindOf (payload src) = Some k \<and> k \<noteq> FixedLenByteArray
             then (Scalar (payload src), None) else (v, Some ErrAssign)
         | TFixedLen n \<Rightarrow>
             (case payload src of
                PFixedLenByteArray b \<Rightarrow>
                  if length b = n then (Scalar (payload src), None) else (v, Some ErrAssign)
              | _ \<Rightarrow> (v, Some ErrAssign))
         | TSlice TByte \<Rightarrow>
             (case payload src of
                PByteArray b \<Rightarrow> (Slice (Some (map Byte b)), None)
              | _ \<Rightarrow> (v, Some ErrAssign))
         | _ \<Rightarrow> (v, Some ErrAssign)))"

definition reconstructLeaf :: "int \<Rightarrow> reconstructFunc" where
  "reconstructLeaf colIndex t v levels row =
     (if length row = 0 then Some (Inr (v, row, Some (ErrLeafEmptyRow colIndex)))
      else if sint (ColumnIndex (hd row)) \<noteq> colIndex then
        Some (Inr (v, row, Some (ErrLeafNoValues colIndex)))
      else
        (case assignValue t v (hd row) of (x, err) \<Rightarrow> Some (Inr (x, tl row, err))))"

definition reconstructOptional :: "int \<Rightarrow> int \<Rightarrow> reconstructFunc \<Rightarrow> reconstructFunc" where
  "reconstructOptional colIndex rowLength reconstruct t v levels row =
     (if \<not> startsWith row colIndex then
        Some (Inr (v, row, Some (ErrMissingOptionalColumn colIndex)))
      else if int (length row) < rowLength then
        Some (Inr (v, row, Some (ErrOptionalTooShort colIndex rowLength (length row))))
      else
        (let levels1 = levels\<lparr>definitionLevel' := definitionLevel' levels + 1\<rparr> in
         if definitionLevel (hd row) <s definitionLevel' levels1 then
           Some (Inr (Zero t, drop (nat rowLength) row, None))
         else
           (case t of
              TPtr t' \<Rightarrow>
                (case reconstruct t' (case v of Ptr (Some x) \<Rightarrow> x | _ \<Rightarrow> Zero t') levels1 row of
                   None \<Rightarrow> None
                 | Some (Inl p) \<Rightarrow> Some (Inl p)
                 | Some (Inr (x, row', err)) \<Rightarrow> Some (Inr (Ptr (Some x), row', err)))
            | _ \<Rightarrow> reconstruct t v levels1 row)))"

text \<open>
  The loop of the repeated reconstructor. \<open>buf\<close> is the working buffer held in the
  destination (its length is the capacity \<open>c\<close>), \<open>n\<close> the number of elements filled.
  The loop does not end when the child consumes nothing and the condition keeps holding.
\<close>

partial_function (option) reconstructElements ::
  "reconstructFunc \<Rightarrow> int \<Rightarrow> htype \<Rightarrow> levels \<Rightarrow> hvalue list \<Rightarrow> nat \<Rightarrow> Row \<Rightarrow>
   (panic + (hvalue \<times> Row \<times> error option)) option" where
  "reconstructElements reconstruct colIndex t levels buf n row =
     (if startsWith row colIndex \<and> repetitionLevel (hd row) = repetitionLevel' levels then
        (let buf1 = (if n = length buf then buf @ replicate (length buf) (Zero t) else buf) in
         case reconstruct t (buf1 ! n) levels row of
           None \<Rightarrow> None
         | Some (Inl p) \<Rightarrow> Some (Inl p)
         | Some (Inr (x, row', Some err)) \<Rightarrow>
             Some (Inr (Slice (Some (buf1[n := x])), row', Some err))
         | Some (Inr (x, row', None)) \<Rightarrow>
             reconstructElements reconstruct colIndex t
               (levels\<lparr>repetitionLevel' := repetitionDepth levels\<rparr>) (buf1[n := x]) (Suc n) row')
      else Some (Inr (Slice (Some (take n buf)), row, None)))"

declare reconstructElements.simps [code]

definition reconstructRepeated :: "int \<Rightarrow> int \<Rightarrow> reconstructFunc \<Rightarrow> reconstructFunc" where
  "reconstructRepeated colIndex rowLength reconstruct t v levels row =
     (if \<not> startsWith row colIndex then
        Some (Inr (v, row, Some (ErrMissingRepeatedColumn colIndex)))
      else if int (length row) < rowLength then
        Some (Inr (v, row, Some (ErrRepeatedTooShort colIndex rowLength (length row))))
      else
        (case t of
           TSlice elem \<Rightarrow>
             (let levels1 = levels\<lparr>definitionLevel' := definitionLevel' levels + 1,
                                  repetitionDepth := repetitionDepth levels + 1\<rparr> in
              if definitionLevel (hd row) <s definitionLevel' levels1 then
                Some (Inr (Slice (Some []), drop (nat rowLength) row, None))
              else
                reconstructElements reconstruct colIndex elem levels1
                  (case v of
                     Slice (Some xs) \<Rightarrow> if length xs > 0 then xs else replicate 10 (Zero elem)
                   | _ \<Rightarrow> replicate 10 (Zero elem))
                  0 row)
         | _ \<Rightarrow> Some (Inr (v, row, Some (ErrRepeatedNotSlice colIndex)))))"

text \<open>The destination of child \<open>i\<close> of a group, and the group with that child replaced.\<close>

fun fieldSlot :: "htype \<Rightarrow> hvalue \<Rightarrow> nat \<Rightarrow> panic + (htype \<times> hvalue)" where
  "fieldSlot (TStruct ts) (Struct fs) i =
     (if i < length ts \<and> i < length fs then Inr (ts ! i, fs ! i) else Inl ReflectPanic)"
| "fieldSlot t v i = Inl ReflectPanic"

fun reconstructFields ::
  "(string \<times> reconstructFunc) list \<Rightarrow> nat \<Rightarrow> htype \<Rightarrow> hvalue \<Rightarrow> levels \<Rightarrow> Row \<Rightarrow>
   reconstructResult" where
  "reconstructFields [] i t v levels row = Some (Inr (v, row, None))"
| "reconstructFields (nf # funcs) i t v levels row =
     (case fieldSlot t v i of
        Inl p \<Rightarrow> Some (Inl p)
      | Inr (ti, vi) \<Rightarrow>
          (case snd nf ti vi levels row of
             None \<Rightarrow> None
           | Some (Inl p) \<Rightarrow> Some (Inl p)
           | Some (Inr (x, row', Some err)) \<Rightarrow>
               Some (Inr (setField v i x, row', Some (ErrChild (fst nf) err)))
           | Some (Inr (x, row', None)) \<Rightarrow>
               reconstructFields funcs (Suc i) t (setField v i x) levels row'))"

definition reconstructGroup :: "(string \<times> reconstructFunc) list \<Rightarrow> reconstructFunc" where
  "reconstructGroup funcs t v levels row = reconstructFields funcs 0 t v levels row"

text \<open>
  The map reconstructor reconstructs a fresh slice of key-value structs and inserts its
  elements into the destination map, key and value converted to the key type and the
  element type of the map. \<open>keyType\<close> and \<open>valueType\<close> are the field types of the
  key-value struct of the node.
\<close>

fun insertPairs ::
  "htype \<Rightarrow> htype \<Rightarrow> (hvalue \<times> hvalue) list \<Rightarrow> hvalue list \<Rightarrow> panic + (hvalue \<times> hvalue) list" where
  "insertPairs mapKeyType mapElemType m [] = Inr m"
| "insertPairs mapKeyType mapElemType m (elem # elems) =
     (case elem of
        Struct [k, x] \<Rightarrow>
          (case Convert mapKeyType k of
             Inl p \<Rightarrow> Inl p
           | Inr k' \<Rightarrow>
               (case Convert mapElemType x of
                  Inl p \<Rightarrow> Inl p
                | Inr x' \<Rightarrow> insertPairs mapKeyType mapElemType (SetMapIndex m k' x') elems))
      | _ \<Rightarrow> Inl ReflectPanic)"

definition reconstructMap :: "htype \<Rightarrow> htype \<Rightarrow> reconstructFunc \<Rightarrow> reconstructFunc" where
  "reconstructMap keyType valueType reconstruct t mapValue levels row =
     (case reconstruct (TSlice (TStruct [keyType, valueType])) (Slice None) levels row of
        None \<Rightarrow> None
      | Some (Inl p) \<Rightarrow> Some (Inl p)
      | Some (Inr (keyValueSlice, row', Some err)) \<Rightarrow> Some (Inr (mapValue, row', Some err))
      | Some (Inr (keyValueSlice, row', None)) \<Rightarrow>
          (case keyValueSlice of
             Slice None \<Rightarrow> Some (Inr (Zero t, row', None))
           | Slice (Some elems) \<Rightarrow>
               (case t of
                  TMap mapKeyType mapElemType \<Rightarrow>
                    (case insertPairs mapKeyType mapElemType
                            (case mapValue of MapV (Some m) \<Rightarrow> m | _ \<Rightarrow> []) elems of
                       Inl p \<Rightarrow> Some (Inl p)
                     | Inr m \<Rightarrow> Some (Inr (MapV (Some m), row', None)))
                | _ \<Rightarrow> Some (Inl ReflectPanic))
           | _ \<Rightarrow> Some (Inl ReflectPanic)))"

function reconstructFuncOf :: "int \<Rightarrow> node \<Rightarrow> int \<times> reconstructFunc"
  and reconstructFuncsOf :: "int \<Rightarrow> (string \<times> node) list \<Rightarrow> int \<times> (string \<times> reconstructFunc) list"
where
  "reconstructFuncOf colIndex node =
     (if Optional node then
        (case reconstructFuncOf colIndex (Required node) of
           (nextColumnIndex, reconstruct) \<Rightarrow>
             (nextColumnIndex,
              reconstructOptional colIndex (nextColumnIndex - colIndex) reconstruct))
      else if isRepeated node then
        (case reconstructFuncOf colIndex (Required node) of
           (nextColumnIndex, reconstruct) \<Rightarrow>
             (nextColumnIndex,
              reconstructRepeated colIndex (nextColumnIndex - colIndex) reconstruct))
      else if isList node then
        reconstructFuncOf colIndex (Repeated (listElementOf node))
      else if isMap node then
        (case reconstructFuncOf colIndex (Repeated (schemaOfKeyValueElem node)) of
           (c, reconstruct) \<Rightarrow>
             (c, reconstructMap (keyTypeOf node) (valueTypeOf node) reconstruct))
      else if isLeaf node then (colIndex + 1, reconstructLeaf colIndex)
      else
        (case reconstructFuncsOf colIndex (children node) of
           (c, funcs) \<Rightarrow> (c, reconstructGroup funcs)))"
| "reconstructFuncsOf colIndex [] = (colIndex, [])"
| "reconstructFuncsOf colIndex (child # rest) =
     (case reconstructFuncOf colIndex (snd child) of
        (c, f) \<Rightarrow>
          (case reconstructFuncsOf c rest of (c', funcs) \<Rightarrow> (c', (fst child, f) # funcs)))"
  by pat_completeness auto
termination
proof (relation "measure (\<lambda>x. case x of Inl (c, n) \<Rightarrow> nodeMeasure n | Inr (c, cs) \<Rightarrow> childrenMeasure cs)")
  show "wf (measure (\<lambda>x. case x of Inl (c, n) \<Rightarrow> nodeMeasure n | Inr (c, cs) \<Rightarrow> childrenMeasure cs))"
    by simp
qed (auto simp: nodeMeasure_def childrenMeasure_def Optional_def isRepeated_def Required_def
      Repeated_def elim!: isList.elims isMap.elims isLeaf.elims split: node.splits)

declare reconstructFuncOf.simps [simp del]

text \<open>The reconstructor of a schema, applied to a row and a fresh destination.\<close>

definition reconstructRow :: "node \<Rightarrow> htype \<Rightarrow> Row \<Rightarrow> reconstructResult" where
  "reconstructRow schema t row =
     (case reconstructFuncOf 0 schema of (c, reconstruct) \<Rightarrow> reconstruct t (Zero t) zeroLevels row)"

section \<open>Deconstruction of a repeated field\<close>

text \<open>
  Claim C3. For the schema \<open>{xs: repeated int32}\<close> the record \<open>{xs: [10, 20, 30]}\<close>
  deconstructs, from the initial levels, into exactly three values of column 0 at
  definition level 1: the first keeps the inherited repetition level 0, the second and
  the third carry the repetition depth 1.
\<close>

theorem deconstruct_repeated_int32:
  "deconstructRow (Group RequiredNode [(''xs'', Leaf RepeatedNode Int32)])
         (Struct [Slice (Some [Scalar (PInt32 10), Scalar (PInt32 20), Scalar (PInt32 30)])])
   = Inr [leveled 0 0 1 (PInt32 10), leveled 0 1 1 (PInt32 20), leveled 0 1 1 (PInt32 30)]
   \<and> map ColumnIndex
       [leveled 0 0 1 (PInt32 10), leveled 0 1 1 (PInt32 20), leveled 0 1 1 (PInt32 30)]
     = [0, 0, 0]"
  by (simp add: deconstructRow_def deconstructFuncOf.simps Optional_def isRepeated_def
      Required_def Repeated_def deconstructFuncOfLeaf_def MaxColumnIndex_def
      deconstructGroup_def deconstructRepeated_def deconstructElements.simps
      deconstructLeaf_def makeValueOf_def makeValue_def zeroValue_def zeroLevels_def
      leveled_def ColumnIndex_def)

section \<open>Column indexes\<close>

text \<open>
  The number of leaf columns of a schema, and the null values a deconstructor emits for
  an absent value: one for each leaf, in the order of the columns.
\<close>

fun numLeaves :: "node \<Rightarrow> nat" where
  "numLeaves (Leaf r k) = 1"
| "numLeaves (Group r cs) = sum_list (map (\<lambda>c. numLeaves (snd c)) cs)"
| "numLeaves (ListOf r e) = numLeaves e"
| "numLeaves (MapOf r kv kt vt) = numLeaves kv"

definition numLeavesOf :: "(string \<times> node) list \<Rightarrow> nat" where
  "numLeavesOf cs = sum_list (map (\<lambda>c. numLeaves (snd c)) cs)"

definition nullValue :: "levels \<Rightarrow> int \<Rightarrow> Value" where
  "nullValue lv c =
     zeroValue\<lparr>repetitionLevel := repetitionLevel' lv, definitionLevel := definitionLevel' lv,
                columnIndex := NOT (word_of_int c)\<rparr>"

definition nullValues :: "levels \<Rightarrow> int \<Rightarrow> nat \<Rightarrow> Row" where
  "nullValues lv c n = map (\<lambda>i. nullValue lv (c + int i)) [0..<n]"

lemma nullValues_0 [simp]: "nullValues lv c 0 = []"
  by (simp add: nullValues_def)

lemma nullValues_add:
  "nullValues lv c (m + n) = nullValues lv c m @ nullValues lv (c + int m) n"
proof -
  have "[0..<m + n] = [0..<m] @ [m..<m + n]"
    by (rule upt_add_eq_append) simp
  moreover have "[m..<m + n] = map (\<lambda>i. i + m) [0..<n]"
    by (simp add: map_add_upt add.commute)
  ultimately have "[0..<m + n] = [0..<m] @ map (\<lambda>i. i + m) [0..<n]"
    by simp
  then show ?thesis
    by (simp add: nullValues_def comp_def add.assoc add.commute [of "int m"])
qed

lemma nullValues_1: "nullValues lv c (Suc 0) = [nullValue lv c]"
  by (simp add: nullValues_def)

lemma numLeaves_withRepetition [simp]: "numLeaves (withRepetition r n) = numLeaves n"
  by (cases n) simp_all

lemma deconstructOptional_Invalid [simp]:
  "deconstructOptional f row lv Invalid = f row lv Invalid"
  by (simp add: deconstructOptional_def)

lemma deconstructRepeated_Invalid [simp]:
  "deconstructRepeated f row lv Invalid = f row lv Invalid"
  by (simp add: deconstructRepeated_def)

lemma deconstructMap_Invalid [simp]:
  "deconstructMap kt vt f row lv Invalid = f row lv Invalid"
  by (simp add: deconstructMap_def)

lemma deconstructLeaf_Invalid [simp]:
  "deconstructLeaf k (NOT (word_of_int c)) row lv Invalid = Inr (row @ [nullValue lv c])"
  by (simp add: deconstructLeaf_def nullValue_def)

definition compilesOk :: "int \<Rightarrow> nat \<Rightarrow> bool" where
  "compilesOk c n \<longleftrightarrow> n = 0 \<or> c + int n \<le> 128"


lemma deconstructFuncsOf_simps [simp]:
  "deconstructFuncsOf c [] = Inr (c, [])"
  "deconstructFuncsOf c (child # rest) =
     (case deconstructFuncOf c (snd child) of
        Inl p \<Rightarrow> Inl p
      | Inr (c', f) \<Rightarrow>
          map_sum id (\<lambda>(c'', funcs). (c'', f # funcs)) (deconstructFuncsOf c' rest))"
  by simp_all

lemma deconstructFuncOf_Optional:
  "Optional node \<Longrightarrow> deconstructFuncOf c node =
     map_sum id (\<lambda>(c, d). (c, deconstructOptional d)) (deconstructFuncOf c (Required node))"
  by (subst deconstructFuncOf.simps(1)) simp

lemma deconstructFuncOf_Repeated:
  "isRepeated node \<Longrightarrow> deconstructFuncOf c node =
     map_sum id (\<lambda>(c, d). (c, deconstructRepeated d)) (deconstructFuncOf c (Required node))"
  by (subst deconstructFuncOf.simps(1)) (simp add: Optional_def isRepeated_def)

lemma deconstructFuncOf_Leaf:
  "deconstructFuncOf c (Leaf RequiredNode k) = deconstructFuncOfLeaf c (Leaf RequiredNode k)"
  by (subst deconstructFuncOf.simps(1)) (simp add: Optional_def isRepeated_def)

lemma deconstructFuncOf_Group:
  "deconstructFuncOf c (Group RequiredNode cs) =
     map_sum id (\<lambda>(c, funcs). (c, deconstructGroup funcs)) (deconstructFuncsOf c cs)"
  by (subst deconstructFuncOf.simps(1)) (simp add: Optional_def isRepeated_def)

lemma deconstructFuncOf_List:
  "deconstructFuncOf c (ListOf RequiredNode e) = deconstructFuncOf c (Repeated e)"
  by (subst deconstructFuncOf.simps(1)) (simp add: Optional_def isRepeated_def)

lemma deconstructFuncOf_Map:
  "deconstructFuncOf c (MapOf RequiredNode kv kt vt) =
     map_sum id (\<lambda>(c, d). (c, deconstructMap kt vt d)) (deconstructFuncOf c (Repeated kv))"
  by (subst deconstructFuncOf.simps(1)) (simp add: Optional_def isRepeated_def)


lemma deconstruct_compile:
  "(compilesOk c (numLeaves node) \<longrightarrow>
      (\<exists>f. deconstructFuncOf c node = Inr (c + int (numLeaves node), f)
         \<and> (\<forall>row lv. f row lv Invalid = Inr (row @ nullValues lv c (numLeaves node)))))
   \<and> (\<not> compilesOk c (numLeaves node) \<longrightarrow> deconstructFuncOf c node = Inl TooManyColumns)"
  and
  "(compilesOk c (numLeavesOf cs) \<longrightarrow>
      (\<exists>fs. deconstructFuncsOf c cs = Inr (c + int (numLeavesOf cs), fs)
         \<and> length fs = length cs
         \<and> (\<forall>row lv i. deconstructFields fs Invalid i row lv
               = Inr (row @ nullValues lv c (numLeavesOf cs)))))
   \<and> (\<not> compilesOk c (numLeavesOf cs) \<longrightarrow> deconstructFuncsOf c cs = Inl TooManyColumns)"
proof (induction c node and c cs rule: deconstructFuncOf_deconstructFuncsOf.induct)
  case (1 c node)
  show ?case
  proof (cases "Optional node \<or> isRepeated node")
    case True
    then have eq: "deconstructFuncOf c node =
        map_sum id (\<lambda>(c, d). (c, if Optional node then deconstructOptional d else deconstructRepeated d))
          (deconstructFuncOf c (Required node))"
      by (cases "Optional node") (simp_all add: deconstructFuncOf_Optional deconstructFuncOf_Repeated)
    from True "1.IH"(1,2) have IH:
      "(compilesOk c (numLeaves (Required node)) \<longrightarrow>
        (\<exists>f. deconstructFuncOf c (Required node) = Inr (c + int (numLeaves (Required node)), f)
          \<and> (\<forall>row lv. f row lv Invalid = Inr (row @ nullValues lv c (numLeaves (Required node))))))
       \<and> (\<not> compilesOk c (numLeaves (Required node)) \<longrightarrow>
            deconstructFuncOf c (Required node) = Inl TooManyColumns)"
      by blast
    have n: "numLeaves (Required node) = numLeaves node" by (simp add: Required_def)
    show ?thesis
    proof (cases "compilesOk c (numLeaves node)")
      case ok: True
      with IH n obtain f where
        f: "deconstructFuncOf c (Required node) = Inr (c + int (numLeaves node), f)"
        and fnull: "\<And>row lv. f row lv Invalid = Inr (row @ nullValues lv c (numLeaves node))"
        by auto
      from ok f fnull show ?thesis unfolding eq by simp
    next
      case bad: False
      with IH n have "deconstructFuncOf c (Required node) = Inl TooManyColumns" by simp
      with bad show ?thesis unfolding eq by simp
    qed
  next
    case False
    then have no: "\<not> Optional node" "\<not> isRepeated node" by auto
    show ?thesis
    proof (cases node)
      case (Leaf r k)
      with no have r: "r = RequiredNode"
        by (cases r) (simp_all add: Optional_def isRepeated_def)
      show ?thesis unfolding Leaf r deconstructFuncOf_Leaf
        by (simp add: deconstructFuncOfLeaf_def MaxColumnIndex_def compilesOk_def nullValues_1)
    next
      case (Group r cs)
      with no have r: "r = RequiredNode"
        by (cases r) (simp_all add: Optional_def isRepeated_def)
      have eq: "deconstructFuncOf c node =
          map_sum id (\<lambda>(c, funcs). (c, deconstructGroup funcs)) (deconstructFuncsOf c cs)"
        unfolding Group r by (rule deconstructFuncOf_Group)
      from Group no "1.IH"(5) have IH:
        "(compilesOk c (numLeavesOf cs) \<longrightarrow>
          (\<exists>fs. deconstructFuncsOf c cs = Inr (c + int (numLeavesOf cs), fs)
             \<and> length fs = length cs
             \<and> (\<forall>row lv i. deconstructFields fs Invalid i row lv
                   = Inr (row @ nullValues lv c (numLeavesOf cs)))))
         \<and> (\<not> compilesOk c (numLeavesOf cs) \<longrightarrow> deconstructFuncsOf c cs = Inl TooManyColumns)"
        by simp
      have n: "numLeaves node = numLeavesOf cs" using Group by (simp add: numLeavesOf_def)
      show ?thesis
      proof (cases "compilesOk c (numLeavesOf cs)")
        case ok: True
        with IH obtain fs where
          fs: "deconstructFuncsOf c cs = Inr (c + int (numLeavesOf cs), fs)"
          and fsnull: "\<And>row lv i. deconstructFields fs Invalid i row lv
                   = Inr (row @ nullValues lv c (numLeavesOf cs))"
          by auto
        from ok fs fsnull show ?thesis unfolding eq n by (simp add: deconstructGroup_def)
      next
        case bad: False
        with IH have "deconstructFuncsOf c cs = Inl TooManyColumns" by simp
        with bad show ?thesis unfolding eq n by simp
      qed
    next
      case (ListOf r e)
      with no have r: "r = RequiredNode"
        by (cases r) (simp_all add: Optional_def isRepeated_def)
      have eq: "deconstructFuncOf c node = deconstructFuncOf c (Repeated e)"
        unfolding ListOf r by (rule deconstructFuncOf_List)
      have n: "numLeaves node = numLeaves (Repeated e)" using ListOf by (simp add: Repeated_def)
      from ListOf no "1.IH"(3) show ?thesis unfolding eq n by simp
    next
      case (MapOf r kv kt vt)
      let ?kv = "Repeated kv"
      from MapOf no have r: "r = RequiredNode"
        by (cases r) (simp_all add: Optional_def isRepeated_def)
      have eq: "deconstructFuncOf c node =
          map_sum id (\<lambda>(c, d). (c, deconstructMap kt vt d)) (deconstructFuncOf c ?kv)"
        unfolding MapOf r by (rule deconstructFuncOf_Map)
      have n: "numLeaves ?kv = numLeaves node" using MapOf by (simp add: Repeated_def)
      from MapOf no "1.IH"(4) have IH:
        "(compilesOk c (numLeaves ?kv) \<longrightarrow>
          (\<exists>f. deconstructFuncOf c ?kv = Inr (c + int (numLeaves ?kv), f)
            \<and> (\<forall>row lv. f row lv Invalid = Inr (row @ nullValues lv c (numLeaves ?kv)))))
         \<and> (\<not> compilesOk c (numLeaves ?kv) \<longrightarrow> deconstructFuncOf c ?kv = Inl TooManyColumns)"
        by simp
      show ?thesis
      proof (cases "compilesOk c (numLeaves node)")
        case ok: True
        with IH n obtain f where
          f: "deconstructFuncOf c ?kv = Inr (c + int (numLeaves node), f)"
          and fnull: "\<And>row lv. f row lv Invalid = Inr (row @ nullValues lv c (numLeaves node))"
          by auto
        from ok f fnull show ?thesis unfolding eq by simp
      next
        case bad: False
        with IH n have "deconstructFuncOf c ?kv = Inl TooManyColumns" by simp
        with bad show ?thesis unfolding eq by simp
      qed
    qed
  qed
next
  case (2 c)
  show ?case by (simp add: numLeavesOf_def compilesOk_def)
next
  case (3 c child rest)
  let ?n = "numLeaves (snd child)" and ?m = "numLeavesOf rest"
  have sum: "numLeavesOf (child # rest) = ?n + ?m" by (simp add: numLeavesOf_def)
  show ?case
  proof (cases "compilesOk c ?n")
    case False
    with "3.IH"(1) have "deconstructFuncOf c (snd child) = Inl TooManyColumns" by blast
    moreover from False have "\<not> compilesOk c (?n + ?m)" by (auto simp: compilesOk_def)
    ultimately show ?thesis unfolding sum by simp
  next
    case True
    with "3.IH"(1) obtain f where
      f: "deconstructFuncOf c (snd child) = Inr (c + int ?n, f)"
      and fnull: "\<And>row lv. f row lv Invalid = Inr (row @ nullValues lv c ?n)"
      by blast
    note IH2 = "3.IH"(2) [OF f refl]
    show ?thesis
    proof (cases "compilesOk (c + int ?n) ?m")
      case False
      with IH2 have "deconstructFuncsOf (c + int ?n) rest = Inl TooManyColumns" by blast
      moreover from False have "\<not> compilesOk c (?n + ?m)" by (auto simp: compilesOk_def)
      ultimately show ?thesis unfolding sum using f by simp
    next
      case ok: True
      with IH2 obtain fs where
        fs: "deconstructFuncsOf (c + int ?n) rest = Inr (c + int ?n + int ?m, fs)"
        and len: "length fs = length rest"
        and fsnull: "\<And>row lv i. deconstructFields fs Invalid i row lv
               = Inr (row @ nullValues lv (c + int ?n) ?m)"
        by blast
      from True ok have "compilesOk c (?n + ?m)" by (auto simp: compilesOk_def)
      moreover have "deconstructFuncsOf c (child # rest) = Inr (c + int (?n + ?m), f # fs)"
        using f fs by simp
      moreover have "\<And>row lv i. deconstructFields (f # fs) Invalid i row lv
               = Inr (row @ nullValues lv c (?n + ?m))"
        by (simp add: fnull fsnull nullValues_add)
      ultimately show ?thesis unfolding sum using len by auto
    qed
  qed
qed


lemma sint_word_of_int8: "- 128 \<le> c \<Longrightarrow> c < 128 \<Longrightarrow> sint (word_of_int c :: int8) = c"
  by (simp add: signed_of_int signed_take_bit_int_eq_self)

lemma ColumnIndex_nullValue:
  "- 128 \<le> c \<Longrightarrow> c < 128 \<Longrightarrow> sint (ColumnIndex (nullValue lv c)) = c"
  by (simp add: ColumnIndex_def nullValue_def sint_word_of_int8)

lemma columns_nullValues:
  "n \<le> 128 \<Longrightarrow> map (\<lambda>v. sint (ColumnIndex v)) (nullValues lv 0 n) = map int [0..<n]"
  by (simp add: nullValues_def comp_def ColumnIndex_nullValue)

text \<open>
  Claim C5, as the code has it. Compiling the deconstructor of a schema of at most 128
  leaf columns succeeds, and its leaves carry the column indexes 0, 1, ... in order, all
  different and at most 127 (seen on the values emitted for an absent record, one for
  each leaf); compiling a schema of more than 128 leaf columns panics and gives no
  deconstructor.
\<close>

theorem deconstruct_compile_bound:
  "(numLeaves schema \<le> 128 \<longrightarrow>
      (\<exists>deconstruct. deconstructFuncOf 0 schema = Inr (int (numLeaves schema), deconstruct)
         \<and> (\<forall>row lv. \<exists>out. deconstruct row lv Invalid = Inr (row @ out)
               \<and> map (\<lambda>v. sint (ColumnIndex v)) out = map int [0..<numLeaves schema])))
   \<and> (128 < numLeaves schema \<longrightarrow> deconstructFuncOf 0 schema = Inl TooManyColumns)"
proof (intro conjI impI)
  assume le: "numLeaves schema \<le> 128"
  then have "compilesOk 0 (numLeaves schema)" by (simp add: compilesOk_def)
  with deconstruct_compile(1) [of 0 schema] obtain f where
    f: "deconstructFuncOf 0 schema = Inr (int (numLeaves schema), f)"
    and fnull: "\<And>row lv. f row lv Invalid = Inr (row @ nullValues lv 0 (numLeaves schema))"
    by auto
  from columns_nullValues [OF le] fnull
  have "\<forall>row lv. \<exists>out. f row lv Invalid = Inr (row @ out)
               \<and> map (\<lambda>v. sint (ColumnIndex v)) out = map int [0..<numLeaves schema]"
    by blast
  with f show "\<exists>deconstruct. deconstructFuncOf 0 schema = Inr (int (numLeaves schema), deconstruct)
         \<and> (\<forall>row lv. \<exists>out. deconstruct row lv Invalid = Inr (row @ out)
               \<and> map (\<lambda>v. sint (ColumnIndex v)) out = map int [0..<numLeaves schema])"
    by blast
next
  assume "128 < numLeaves schema"
  then have "\<not> compilesOk 0 (numLeaves schema)" by (simp add: compilesOk_def)
  with deconstruct_compile(1) [of 0 schema]
  show "deconstructFuncOf 0 schema = Inl TooManyColumns" by blast
qed

lemma numLeaves_flat: "numLeaves (Group RequiredNode (replicate n (name, Leaf r k))) = n"
  by (simp add: sum_list_replicate)

theorem deconstruct_compile_bound_witness:
  "numLeaves (Group RequiredNode [(''a'', Leaf RequiredNode Int32), (''b'', Leaf OptionalNode ByteArray)])
      \<le> 128
   \<and> map_sum id fst (deconstructFuncOf 0
        (Group RequiredNode [(''a'', Leaf RequiredNode Int32), (''b'', Leaf OptionalNode ByteArray)]))
      = Inr 2
   \<and> 128 < numLeaves (Group RequiredNode (replicate 129 (''a'', Leaf RequiredNode Int32)))
   \<and> deconstructFuncOf 0 (Group RequiredNode (replicate 129 (''a'', Leaf RequiredNode Int32)))
      = Inl TooManyColumns"
proof -
  let ?small = "Group RequiredNode [(''a'', Leaf RequiredNode Int32), (''b'', Leaf OptionalNode ByteArray)]"
  let ?big = "Group RequiredNode (replicate 129 (''a'', Leaf RequiredNode Int32))"
  have small: "numLeaves ?small = 2" by simp
  have big: "numLeaves ?big = 129" by (rule numLeaves_flat)
  from deconstruct_compile_bound [of ?small] small
  have "map_sum id fst (deconstructFuncOf 0 ?small) = Inr 2" by auto
  moreover from deconstruct_compile_bound [of ?big] big
  have "deconstructFuncOf 0 ?big = Inl TooManyColumns" by simp
  ultimately show ?thesis using small big by simp
qed

text \<open>
  A schema of exactly 128 leaf columns has more than 127 columns and compiles: the panic
  guards the column index, which may reach \<open>MaxColumnIndex = 127\<close>.
\<close>

theorem deconstruct_compile_128_columns:
  "127 < numLeaves (Group RequiredNode (replicate 128 (''a'', Leaf RequiredNode Int32)))
   \<and> map_sum id fst (deconstructFuncOf 0
        (Group RequiredNode (replicate 128 (''a'', Leaf RequiredNode Int32)))) = Inr 128"
proof -
  let ?s = "Group RequiredNode (replicate 128 (''a'', Leaf RequiredNode Int32))"
  have n: "numLeaves ?s = 128" by (rule numLeaves_flat)
  then have "compilesOk 0 (numLeaves ?s)" by (simp add: compilesOk_def)
  with deconstruct_compile(1) [of 0 ?s] n show ?thesis by auto
qed

section \<open>The loop of the repeated reconstructor\<close>

text \<open>
  The slot that the loop hands to the child for element \<open>n\<close>: the element which the
  destination slice already holds at that index, and the zero value of the element type
  beyond its length (the working buffer is the destination slice when it is not empty and
  ten zeroed elements otherwise, and it is doubled with zeroed elements).
\<close>

definition slotOf :: "htype \<Rightarrow> hvalue \<Rightarrow> nat \<Rightarrow> hvalue" where
  "slotOf te v n =
     (case v of
        Slice (Some xs) \<Rightarrow> if n < length xs then xs ! n else Zero te
      | _ \<Rightarrow> Zero te)"

text \<open>
  A run of the loop on a row, for any child. The loop goes on exactly while the row
  starts at the first column of the subtree and the repetition level of its first value
  is \<open>levels.repetitionLevel\<close>. \<open>calls\<close> lists what the successive invocations of the
  child returned when they returned without error, the element and the remaining row;
  each invocation is made on the row which the one before it returned, with
  \<open>levels.repetitionLevel\<close> set to the repetition depth after the first. \<open>fin\<close> tells how
  the loop ends: \<open>None\<close> when the condition fails, \<open>Some r\<close> when the condition holds and
  the child gives \<open>r\<close>, which is an error, a panic or no return at all.
\<close>

fun loopCalls ::
  "reconstructFunc \<Rightarrow> int \<Rightarrow> htype \<Rightarrow> hvalue \<Rightarrow> nat \<Rightarrow> levels \<Rightarrow> Row \<Rightarrow>
   (hvalue \<times> Row) list \<Rightarrow> reconstructResult option \<Rightarrow> bool" where
  "loopCalls child c te v n lv row [] fin \<longleftrightarrow>
     (case fin of
        None \<Rightarrow> \<not> (startsWith row c \<and> repetitionLevel (hd row) = repetitionLevel' lv)
      | Some r \<Rightarrow>
          startsWith row c \<and> repetitionLevel (hd row) = repetitionLevel' lv
          \<and> child te (slotOf te v n) lv row = r
          \<and> (case r of Some (Inr (x, row', None)) \<Rightarrow> False | _ \<Rightarrow> True))"
| "loopCalls child c te v n lv row (call # calls) fin \<longleftrightarrow>
     startsWith row c \<and> repetitionLevel (hd row) = repetitionLevel' lv
     \<and> child te (slotOf te v n) lv row = Some (Inr (fst call, snd call, None))
     \<and> loopCalls child c te v (Suc n) (lv\<lparr>repetitionLevel' := repetitionDepth lv\<rparr>)
          (snd call) calls fin"

text \<open>What the loop returns at the end of a run.\<close>

definition loopReturns ::
  "Row \<Rightarrow> (hvalue \<times> Row) list \<Rightarrow> reconstructResult option \<Rightarrow> reconstructResult \<Rightarrow> bool" where
  "loopReturns row calls fin res \<longleftrightarrow>
     (case fin of
        None \<Rightarrow> res = Some (Inr (Slice (Some (map fst calls)), last (row # map snd calls), None))
      | Some None \<Rightarrow> res = None
      | Some (Some (Inl p)) \<Rightarrow> res = Some (Inl p)
      | Some (Some (Inr (x, row', err))) \<Rightarrow>
          (case res of
             Some (Inr (Slice (Some buf), row'', err'')) \<Rightarrow>
               row'' = row' \<and> err'' = err \<and> take (Suc (length calls)) buf = map fst calls @ [x]
           | _ \<Rightarrow> False))"

lemma reconstructElements_calls:
  "loopCalls child c te v n lv row calls fin \<Longrightarrow> n \<le> length buf \<Longrightarrow> 0 < length buf \<Longrightarrow>
   (\<forall>i. n \<le> i \<longrightarrow> i < length buf \<longrightarrow> buf ! i = slotOf te v i) \<Longrightarrow>
   (\<forall>i. length buf \<le> i \<longrightarrow> slotOf te v i = Zero te) \<Longrightarrow>
   (case fin of
      None \<Rightarrow>
        reconstructElements child c te lv buf n row
          = Some (Inr (Slice (Some (take n buf @ map fst calls)), last (row # map snd calls), None))
    | Some None \<Rightarrow> reconstructElements child c te lv buf n row = None
    | Some (Some (Inl p)) \<Rightarrow> reconstructElements child c te lv buf n row = Some (Inl p)
    | Some (Some (Inr (x, row', err))) \<Rightarrow>
        (\<exists>buf'. reconstructElements child c te lv buf n row
                  = Some (Inr (Slice (Some buf'), row', err))
           \<and> take (Suc (n + length calls)) buf' = take n buf @ map fst calls @ [x]))"
proof (induction calls arbitrary: n lv row buf)
  case Nil
  let ?buf1 = "if n = length buf then buf @ replicate (length buf) (Zero te) else buf"
  have slot: "?buf1 ! n = slotOf te v n"
    using Nil.prems(2,3,4,5) by (auto simp: nth_append)
  have lt: "n < length ?buf1" using Nil.prems(2,3) by auto
  show ?case
  proof (cases fin)
    case None
    with Nil.prems(1) show ?thesis
      by (subst reconstructElements.simps) auto
  next
    case (Some r)
    with Nil.prems(1) have cond: "startsWith row c \<and> repetitionLevel (hd row) = repetitionLevel' lv"
      and r: "child te (slotOf te v n) lv row = r"
      and nos: "case r of Some (Inr (x, row', None)) \<Rightarrow> False | _ \<Rightarrow> True"
      by simp_all
    have tk: "take (Suc n) (?buf1[n := x]) = take n buf @ [x]" for x
      using lt Nil.prems(2) by (auto simp: take_Suc_conv_app_nth)
    have unfold: "reconstructElements child c te lv buf n row =
        (case r of
           None \<Rightarrow> None
         | Some (Inl p) \<Rightarrow> Some (Inl p)
         | Some (Inr (x, row', Some err)) \<Rightarrow>
             Some (Inr (Slice (Some (?buf1[n := x])), row', Some err))
         | Some (Inr (x, row', None)) \<Rightarrow> None)"
      using cond r nos slot
      by (subst reconstructElements.simps)
         (auto simp: Let_def split: option.splits sum.splits prod.splits)
    show ?thesis
      unfolding unfold using nos tk Some
      by (auto split: option.splits sum.splits prod.splits)
  qed
next
  case (Cons call calls)
  define buf1 where
    "buf1 = (if n = length buf then buf @ replicate (length buf) (Zero te) else buf)"
  let ?lv' = "lv\<lparr>repetitionLevel' := repetitionDepth lv\<rparr>"
  obtain x row' where call: "call = (x, row')" by (cases call)
  from Cons.prems(1) call have
    cond: "startsWith row c \<and> repetitionLevel (hd row) = repetitionLevel' lv"
    and r: "child te (slotOf te v n) lv row = Some (Inr (x, row', None))"
    and rest: "loopCalls child c te v (Suc n) ?lv' row' calls fin"
    by simp_all
  have slot: "buf1 ! n = slotOf te v n"
    using Cons.prems(2,3,4,5) by (auto simp: buf1_def nth_append)
  have lt: "n < length buf1" using Cons.prems(2,3) by (auto simp: buf1_def)
  have step: "reconstructElements child c te lv buf n row =
      reconstructElements child c te ?lv' (buf1[n := x]) (Suc n) row'"
    using cond r slot by (subst reconstructElements.simps) (simp add: Let_def buf1_def)
  have tk: "take (Suc n) (buf1[n := x]) = take n buf @ [x]"
    using lt Cons.prems(2) by (auto simp: buf1_def take_Suc_conv_app_nth)
  have inv1: "\<forall>i. Suc n \<le> i \<longrightarrow> i < length (buf1[n := x]) \<longrightarrow> (buf1[n := x]) ! i = slotOf te v i"
    using Cons.prems(4,5) by (auto simp: buf1_def nth_append)
  have inv2: "\<forall>i. length (buf1[n := x]) \<le> i \<longrightarrow> slotOf te v i = Zero te"
    using Cons.prems(5) by (auto simp: buf1_def)
  have "Suc n \<le> length (buf1[n := x])" "0 < length (buf1[n := x])"
    using lt Cons.prems(3) by auto
  note IH = Cons.IH [OF rest this inv1 inv2, unfolded tk]
  show ?case
  proof (cases fin)
    case None
    with IH show ?thesis unfolding step by (simp add: call)
  next
    case (Some r')
    with IH show ?thesis unfolding step
      by (auto simp: call split: option.splits sum.splits prod.splits)
  qed
qed

text \<open>
  Claim C2, as the code has it. In the non-null branch the repeated reconstructor invokes
  the child, each time on the row left by the invocation before, exactly while the row
  starts at the first column of the subtree and the repetition level of the next value
  equals \<open>levels.repetitionLevel\<close>: the inherited repetition level before the first
  element, the repetition depth of the field, set after each iteration, for every later
  element. So the first element is consumed only if its repetition level is the
  inherited one. This holds for every child, whatever it consumes: when the condition
  fails the elements are what the invocations returned, in order, and the row left by the
  last one is returned; an error, a panic or a non-return of the child ends the loop with
  it.
\<close>

theorem reconstructRepeated_consumes:
  assumes "startsWith row c" and "\<not> int (length row) < rowLength"
    and "\<not> definitionLevel (hd row) <s definitionLevel' lv + 1"
    and "loopCalls child c te v 0
           (lv\<lparr>definitionLevel' := definitionLevel' lv + 1,
               repetitionDepth := repetitionDepth lv + 1\<rparr>) row calls fin"
  shows "loopReturns row calls fin (reconstructRepeated c rowLength child (TSlice te) v lv row)"
proof -
  let ?lv1 = "lv\<lparr>definitionLevel' := definitionLevel' lv + 1,
                   repetitionDepth := repetitionDepth lv + 1\<rparr>"
  define buf where "buf = (case v of
      Slice (Some xs) \<Rightarrow> if length xs > 0 then xs else replicate 10 (Zero te)
    | _ \<Rightarrow> replicate 10 (Zero te))"
  have buf: "0 < length buf"
    by (auto simp: buf_def split: hvalue.splits option.splits)
  have inv1: "\<forall>i. 0 \<le> i \<longrightarrow> i < length buf \<longrightarrow> buf ! i = slotOf te v i"
    by (auto simp: buf_def slotOf_def split: hvalue.splits option.splits)
  have inv2: "\<forall>i. length buf \<le> i \<longrightarrow> slotOf te v i = Zero te"
    by (auto simp: buf_def slotOf_def split: hvalue.splits option.splits)
  have start: "reconstructRepeated c rowLength child (TSlice te) v lv row =
      reconstructElements child c te ?lv1 buf 0 row"
    using assms(1,2,3) by (simp add: reconstructRepeated_def Let_def buf_def)
  from reconstructElements_calls [OF assms(4) _ buf inv1 inv2]
  show ?thesis
    unfolding start loopReturns_def by (auto split: option.splits sum.splits prod.splits)
qed

text \<open>
  A repeated group \<open>{x, y}\<close> of two columns: the child is the compiled reconstructor of
  the group and consumes two values at each call. On the first row the loop makes two
  calls and stops at the value of column 2. On the second row the child fails on the
  second element, whose \<open>y\<close> is missing, and the loop returns its error.
\<close>

definition pairChild :: reconstructFunc where
  "pairChild = snd (reconstructFuncOf 0
     (Group RequiredNode [(''x'', Leaf RequiredNode Int32), (''y'', Leaf RequiredNode Int32)]))"

definition pairType :: htype where
  "pairType = TStruct [TScalar Int32, TScalar Int32]"

definition pairsRow :: Row where
  "pairsRow = [leveled 0 0 1 (PInt32 1), leveled 1 0 1 (PInt32 2),
               leveled 0 1 1 (PInt32 3), leveled 1 1 1 (PInt32 4), leveled 2 0 0 (PInt32 7)]"

definition pairsCalls :: "(hvalue \<times> Row) list" where
  "pairsCalls =
     [(Struct [Scalar (PInt32 1), Scalar (PInt32 2)],
       [leveled 0 1 1 (PInt32 3), leveled 1 1 1 (PInt32 4), leveled 2 0 0 (PInt32 7)]),
      (Struct [Scalar (PInt32 3), Scalar (PInt32 4)], [leveled 2 0 0 (PInt32 7)])]"

definition shortRow :: Row where
  "shortRow = [leveled 0 0 1 (PInt32 1), leveled 1 0 1 (PInt32 2), leveled 0 1 1 (PInt32 3)]"

definition shortCalls :: "(hvalue \<times> Row) list" where
  "shortCalls =
     [(Struct [Scalar (PInt32 1), Scalar (PInt32 2)], [leveled 0 1 1 (PInt32 3)])]"

definition shortEnd :: reconstructResult where
  "shortEnd = Some (Inr (Struct [Scalar (PInt32 3), Scalar (PInt32 0)], [],
                         Some (ErrChild ''y'' (ErrLeafEmptyRow 1))))"

lemma pairChild_eq:
  "pairChild = reconstructGroup [(''x'', reconstructLeaf 0), (''y'', reconstructLeaf 1)]"
  by (simp add: pairChild_def reconstructFuncOf.simps Optional_def isRepeated_def)

theorem reconstructRepeated_consumes_witness:
  "startsWith pairsRow 0 \<and> \<not> int (length pairsRow) < 2
   \<and> \<not> definitionLevel (hd pairsRow) <s definitionLevel' zeroLevels + 1
   \<and> loopCalls pairChild 0 pairType (Slice None) 0
        (zeroLevels\<lparr>definitionLevel' := definitionLevel' zeroLevels + 1,
                    repetitionDepth := repetitionDepth zeroLevels + 1\<rparr>) pairsRow pairsCalls None
   \<and> reconstructRepeated 0 2 pairChild (TSlice pairType) (Slice None) zeroLevels pairsRow
       = Some (Inr (Slice (Some [Struct [Scalar (PInt32 1), Scalar (PInt32 2)],
                                 Struct [Scalar (PInt32 3), Scalar (PInt32 4)]]),
                    [leveled 2 0 0 (PInt32 7)], None))
   \<and> startsWith shortRow 0 \<and> \<not> int (length shortRow) < 2
   \<and> \<not> definitionLevel (hd shortRow) <s definitionLevel' zeroLevels + 1
   \<and> loopCalls pairChild 0 pairType (Slice None) 0
        (zeroLevels\<lparr>definitionLevel' := definitionLevel' zeroLevels + 1,
                    repetitionDepth := repetitionDepth zeroLevels + 1\<rparr>) shortRow shortCalls
        (Some shortEnd)
   \<and> loopReturns shortRow shortCalls (Some shortEnd)
        (reconstructRepeated 0 2 pairChild (TSlice pairType) (Slice None) zeroLevels shortRow)"
proof -
  let ?lv1 = "zeroLevels\<lparr>definitionLevel' := definitionLevel' zeroLevels + 1,
                    repetitionDepth := repetitionDepth zeroLevels + 1\<rparr>"
  have a1: "startsWith pairsRow 0"
    by (simp add: pairsRow_def startsWith_def leveled_def ColumnIndex_def)
  have a2: "\<not> int (length pairsRow) < 2" by (simp add: pairsRow_def)
  have a3: "\<not> definitionLevel (hd pairsRow) <s definitionLevel' zeroLevels + 1"
    by (simp add: pairsRow_def leveled_def zeroLevels_def word_sless_alt)
  have a4: "loopCalls pairChild 0 pairType (Slice None) 0 ?lv1 pairsRow pairsCalls None"
    by (simp add: pairChild_eq pairType_def pairsRow_def pairsCalls_def slotOf_def
        reconstructGroup_def reconstructLeaf_def assignValue_def startsWith_def leveled_def
        zeroLevels_def ColumnIndex_def)
  have b1: "startsWith shortRow 0"
    by (simp add: shortRow_def startsWith_def leveled_def ColumnIndex_def)
  have b2: "\<not> int (length shortRow) < 2" by (simp add: shortRow_def)
  have b3: "\<not> definitionLevel (hd shortRow) <s definitionLevel' zeroLevels + 1"
    by (simp add: shortRow_def leveled_def zeroLevels_def word_sless_alt)
  have b4: "loopCalls pairChild 0 pairType (Slice None) 0 ?lv1 shortRow shortCalls (Some shortEnd)"
    by (simp add: pairChild_eq pairType_def shortRow_def shortCalls_def shortEnd_def slotOf_def
        reconstructGroup_def reconstructLeaf_def assignValue_def startsWith_def leveled_def
        zeroLevels_def ColumnIndex_def)
  from reconstructRepeated_consumes [OF a1 a2 a3 a4]
  have "reconstructRepeated 0 2 pairChild (TSlice pairType) (Slice None) zeroLevels pairsRow
       = Some (Inr (Slice (Some [Struct [Scalar (PInt32 1), Scalar (PInt32 2)],
                                 Struct [Scalar (PInt32 3), Scalar (PInt32 4)]]),
                    [leveled 2 0 0 (PInt32 7)], None))"
    by (simp add: loopReturns_def pairsCalls_def)
  with reconstructRepeated_consumes [OF b1 b2 b3 b4] a1 a2 a3 a4 b1 b2 b3 b4
  show ?thesis by simp
qed

text \<open>
  The row of \<open>{xs: [10, 20, 30]}\<close>: its first value has the repetition level 0, not the
  repetition depth 1 of the field, and is consumed all the same.
\<close>

theorem reconstruct_first_element_inherited_level:
  "repetitionLevel (hd [leveled 0 0 1 (PInt32 10), leveled 0 1 1 (PInt32 20),
                        leveled 0 1 1 (PInt32 30)]) \<noteq> repetitionDepth zeroLevels + 1
   \<and> snd (reconstructFuncOf 0 (Leaf RepeatedNode Int32)) (TSlice (TScalar Int32)) (Slice None)
       zeroLevels
       [leveled 0 0 1 (PInt32 10), leveled 0 1 1 (PInt32 20), leveled 0 1 1 (PInt32 30)]
     = Some (Inr (Slice (Some [Scalar (PInt32 10), Scalar (PInt32 20), Scalar (PInt32 30)]),
                  [], None))"
  by (simp add: reconstructFuncOf.simps Optional_def isRepeated_def Required_def
      reconstructRepeated_def reconstructElements.simps reconstructLeaf_def assignValue_def
      startsWith_def leveled_def zeroLevels_def ColumnIndex_def word_sless_alt Let_def
      eval_nat_numeral)

section \<open>Round trip of deconstruction and reconstruction\<close>


lemma sint_succ_int8: "sint (x :: int8) < 127 \<Longrightarrow> sint (x + 1) = sint x + 1"
proof -
  assume lt: "sint x < 127"
  have ge: "- 128 \<le> sint x" using sint_ge [of x] by simp
  have "sint (x + 1) = signed_take_bit 7 (sint x + sint (1 :: int8))"
    by (simp add: sint_word_ariths)
  also have "\<dots> = signed_take_bit 7 (sint x + 1)" by simp
  also have "\<dots> = sint x + 1"
    using lt ge by (simp add: signed_take_bit_int_eq_self)
  finally show ?thesis .
qed

text \<open>
  The levels leave room for \<open>k\<close> more increments of the repetition depth and of the
  definition level without leaving the range of an \<open>int8\<close>.
\<close>

definition levelsOK :: "levels \<Rightarrow> nat \<Rightarrow> bool" where
  "levelsOK L k \<longleftrightarrow>
     0 \<le> sint (repetitionDepth L) \<and> sint (repetitionDepth L) + int k \<le> 127
     \<and> 0 \<le> sint (definitionLevel' L) \<and> sint (definitionLevel' L) + int k \<le> 127"

text \<open>
  What may follow the values of a subtree whose columns end before \<open>c'\<close>: nothing, a
  value of a later column, or the first value of a new element of an enclosing repeated
  field.
\<close>

definition stops :: "int \<Rightarrow> levels \<Rightarrow> Row \<Rightarrow> bool" where
  "stops c' L rest \<longleftrightarrow>
     rest = [] \<or> c' \<le> sint (ColumnIndex (hd rest))
     \<or> sint (repetitionLevel (hd rest)) \<le> sint (repetitionDepth L)"

text \<open>
  The first value a deconstructor emits for a subtree: it is of the first column of the
  subtree and carries the inherited repetition level.
\<close>

definition headOK :: "int \<Rightarrow> levels \<Rightarrow> Row \<Rightarrow> bool" where
  "headOK c L out \<longleftrightarrow>
     out \<noteq> [] \<and> sint (ColumnIndex (hd out)) = c
     \<and> repetitionLevel (hd out) = repetitionLevel' L
     \<and> sint (definitionLevel' L) \<le> sint (definitionLevel (hd out))"

text \<open>
  A deconstructor and a reconstructor compiled for the columns from \<open>c\<close> up to \<open>c'\<close>
  round-trip the values that conform (\<open>C\<close>): the deconstructor appends some values
  \<open>out\<close> to any row, and the reconstructor, started on \<open>out\<close> followed by any
  admissible rest and writing into a zeroed destination, returns the value and that rest.
  A subtree without columns (\<open>c = c'\<close>) emits and consumes nothing.
\<close>

definition roundTrips ::
  "int \<Rightarrow> int \<Rightarrow> deconstructFunc \<Rightarrow> reconstructFunc \<Rightarrow> (htype \<Rightarrow> hvalue \<Rightarrow> bool) \<Rightarrow> nat \<Rightarrow> bool" where
  "roundTrips c c' d rc C k \<longleftrightarrow>
     (\<forall>t v L. C t v \<longrightarrow> levelsOK L k \<longrightarrow>
        (\<exists>out. (c < c' \<longrightarrow> headOK c L out) \<and> (c = c' \<longrightarrow> out = [])
           \<and> c' - c \<le> int (length out)
           \<and> (\<forall>row0. d row0 L v = Inr (row0 @ out))
           \<and> (\<forall>rest. stops c' L rest \<longrightarrow>
                 rc t (Zero t) L (out @ rest) = Some (Inr (v, rest, None)))))"

definition emitsNulls :: "int \<Rightarrow> int \<Rightarrow> deconstructFunc \<Rightarrow> bool" where
  "emitsNulls c c' d \<longleftrightarrow>
     (\<forall>row lv. d row lv Invalid = Inr (row @ nullValues lv c (nat (c' - c))))"

lemma levelsOK_mono: "levelsOK L k' \<Longrightarrow> k \<le> k' \<Longrightarrow> levelsOK L k"
  by (auto simp: levelsOK_def)

lemma roundTrips_mono:
  assumes RT: "roundTrips c c' d rc C k" and le: "k \<le> k'"
  shows "roundTrips c c' d rc C k'"
proof -
  have "C t v \<Longrightarrow> levelsOK L k' \<Longrightarrow> C t v \<and> levelsOK L k" for t v L
    using le by (simp add: levelsOK_mono)
  with RT show ?thesis unfolding roundTrips_def by blast
qed

subsection \<open>Leaves\<close>

text \<open>
  A leaf holds a scalar of the kind of the column, of the Go type of that kind, which is
  the type of the destination, and which is not a NaN: a NaN is not equal to itself, so
  that no value is equal to a record that holds one. A leaf of byte arrays may also hold
  a slice of bytes that is not nil.
\<close>

definition leafConforms :: "kind \<Rightarrow> htype \<Rightarrow> hvalue \<Rightarrow> bool" where
  "leafConforms k t v \<longleftrightarrow>
     (case v of
        Scalar p \<Rightarrow>
          kindOf p = Some k \<and> payloadEqual p p
          \<and> (case t of
                TScalar k' \<Rightarrow> k' = k \<and> k \<noteq> FixedLenByteArray
              | TFixedLen n \<Rightarrow> (case p of PFixedLenByteArray b \<Rightarrow> length b = n | _ \<Rightarrow> False)
              | _ \<Rightarrow> False)
      | Slice (Some bs) \<Rightarrow>
          k = ByteArray \<and> t = TSlice TByte \<and> list_all (\<lambda>x. byteOf x \<noteq> None) bs
      | _ \<Rightarrow> False)"

lemma bytes_back:
  "list_all (\<lambda>x. byteOf x \<noteq> None) bs \<Longrightarrow> map (Byte \<circ> (\<lambda>x. the (byteOf x))) bs = bs"
proof (induction bs)
  case (Cons x bs)
  then show ?case by (cases x) simp_all
qed simp

lemma roundTrips_leaf:
  assumes c: "0 \<le> c" "c \<le> 127"
  shows "roundTrips c (c + 1) (deconstructLeaf k (NOT (word_of_int c))) (reconstructLeaf c)
           (leafConforms k) 0"
  unfolding roundTrips_def
proof (intro allI impI)
  fix t v L
  assume conf: "leafConforms k t v" and "levelsOK L 0"
  define p where "p = (case v of Scalar q \<Rightarrow> q
      | _ \<Rightarrow> PByteArray (the (bytesOf v)))"
  let ?x = "(makeValue p)\<lparr>repetitionLevel := repetitionLevel' L,
                definitionLevel := definitionLevel' L, columnIndex := NOT (word_of_int c)\<rparr>"
  have mk: "makeValueOf k v = Inr (makeValue p)"
    using conf
    by (auto simp: leafConforms_def makeValueOf_def p_def split: hvalue.splits option.splits)
  have valid: "IsValid v"
    using conf by (auto simp: leafConforms_def split: hvalue.splits)
  have col: "sint (ColumnIndex ?x) = c"
    using c by (simp add: ColumnIndex_def sint_word_of_int8)
  have pl: "payload ?x = p" by (simp add: makeValue_def)
  have asg: "assignValue t (Zero t) ?x = (v, None)"
    using conf unfolding assignValue_def pl
    by (auto simp: leafConforms_def p_def bytes_back
        split: hvalue.splits option.splits htype.splits payload.splits)
  have "headOK c L [?x]" using col by (simp add: headOK_def)
  moreover have "\<forall>row0. deconstructLeaf k (NOT (word_of_int c)) row0 L v = Inr (row0 @ [?x])"
    using valid mk by (simp add: deconstructLeaf_def)
  moreover have "\<forall>rest. reconstructLeaf c t (Zero t) L ([?x] @ rest) = Some (Inr (v, rest, None))"
    using col asg by (simp add: reconstructLeaf_def)
  ultimately show "\<exists>out. (c < c + 1 \<longrightarrow> headOK c L out) \<and> (c = c + 1 \<longrightarrow> out = [])
           \<and> c + 1 - c \<le> int (length out)
           \<and> (\<forall>row0. deconstructLeaf k (NOT (word_of_int c)) row0 L v = Inr (row0 @ out))
           \<and> (\<forall>rest. stops (c + 1) L rest \<longrightarrow>
                 reconstructLeaf c t (Zero t) L (out @ rest) = Some (Inr (v, rest, None)))"
    by (intro exI [of _ "[?x]"]) simp
qed


subsection \<open>Optional nodes\<close>

text \<open>
  An optional field is absent when it holds the zero value of its type; a present field
  is the value itself or, for a pointer destination, a pointer to it.
\<close>

definition optionalConforms :: "(htype \<Rightarrow> hvalue \<Rightarrow> bool) \<Rightarrow> htype \<Rightarrow> hvalue \<Rightarrow> bool" where
  "optionalConforms C t v \<longleftrightarrow>
     v = Zero t
     \<or> (IsValid v \<and> \<not> IsZero v
        \<and> (case t of
              TPtr t' \<Rightarrow> (case v of Ptr (Some x) \<Rightarrow> C t' x | _ \<Rightarrow> False)
            | _ \<Rightarrow> (case v of Ptr p \<Rightarrow> False | _ \<Rightarrow> C t v)))"

lemma payloadIsZero_zeroPayload [simp]: "payloadIsZero (zeroPayload k)"
  by (cases k) simp_all

lemma IsZero_Zero [simp]: "IsZero (Zero t)"
  by (induction t) (auto simp: list_all_iff)

lemma IsValid_Zero [simp]: "IsValid (Zero t)"
  by (cases t) simp_all

lemma length_nullValues [simp]: "length (nullValues lv c n) = n"
  by (simp add: nullValues_def)

lemma hd_nullValues: "0 < n \<Longrightarrow> hd (nullValues lv c n) = nullValue lv c"
  by (cases n) (simp_all add: nullValues_def upt_rec del: upt_Suc)

lemma headOK_nullValues:
  "0 \<le> c \<Longrightarrow> c \<le> 127 \<Longrightarrow> 0 < n \<Longrightarrow> headOK c lv (nullValues lv c n)"
  unfolding headOK_def
  by (simp add: hd_nullValues ColumnIndex_nullValue) (simp add: nullValue_def nullValues_def)

lemma levelsOK_def_succ:
  "levelsOK L (Suc k) \<Longrightarrow> levelsOK (L\<lparr>definitionLevel' := definitionLevel' L + 1\<rparr>) k"
  by (simp add: levelsOK_def sint_succ_int8)

lemma roundTrips_optional:
  assumes RT: "roundTrips c c' d rc C k" and nulls: "emitsNulls c c' d"
    and c: "0 \<le> c" "c < c'" "c' \<le> 128"
  shows "roundTrips c c' (deconstructOptional d) (reconstructOptional c (c' - c) rc)
           (optionalConforms C) (Suc k)"
  unfolding roundTrips_def
proof (intro allI impI)
  fix t v L
  assume conf: "optionalConforms C t v" and L: "levelsOK L (Suc k)"
  let ?L1 = "L\<lparr>definitionLevel' := definitionLevel' L + 1\<rparr>"
  let ?n = "nat (c' - c)"
  have n: "0 < ?n" "int ?n = c' - c" using c by simp_all
  have d1: "sint (definitionLevel' L + 1) = sint (definitionLevel' L) + 1"
    using L by (simp add: levelsOK_def sint_succ_int8)
  show "\<exists>out. (c < c' \<longrightarrow> headOK c L out) \<and> (c = c' \<longrightarrow> out = [])
      \<and> c' - c \<le> int (length out)
      \<and> (\<forall>row0. deconstructOptional d row0 L v = Inr (row0 @ out))
      \<and> (\<forall>rest. stops c' L rest \<longrightarrow>
            reconstructOptional c (c' - c) rc t (Zero t) L (out @ rest)
              = Some (Inr (v, rest, None)))"
  proof (cases "v = Zero t")
    case True
    let ?out = "nullValues L c ?n"
    have h: "headOK c L ?out" using c n by (intro headOK_nullValues) simp_all
    have dec: "\<forall>row0. deconstructOptional d row0 L v = Inr (row0 @ ?out)"
      using nulls True by (simp add: deconstructOptional_def emitsNulls_def)
    have ne: "?out \<noteq> []" using h by (simp add: headOK_def)
    have hd: "hd (?out @ rest) = nullValue L c" for rest
      using ne n by (simp add: hd_nullValues)
    have sw: "startsWith (?out @ rest) c" for rest
      using h ne c by (simp add: startsWith_def headOK_def)
    have lt: "definitionLevel (nullValue L c) <s definitionLevel' L + 1"
      by (simp add: word_sless_alt d1 nullValue_def)
    have rec: "reconstructOptional c (c' - c) rc t (Zero t) L (?out @ rest)
        = Some (Inr (v, rest, None))" for rest
      unfolding reconstructOptional_def using sw [of rest] n True lt
      by (simp add: hd Let_def)
    from h dec rec n c show ?thesis by (intro exI [of _ ?out]) simp
  next
    case False
    with conf have valid: "IsValid v" and nz: "\<not> IsZero v"
      and shape: "case t of
              TPtr t' \<Rightarrow> (case v of Ptr (Some x) \<Rightarrow> C t' x | _ \<Rightarrow> False)
            | _ \<Rightarrow> (case v of Ptr p \<Rightarrow> False | _ \<Rightarrow> C t v)"
      by (auto simp: optionalConforms_def)
    define t1 where "t1 = (case t of TPtr t' \<Rightarrow> t' | _ \<Rightarrow> t)"
    define v1 where "v1 = (case v of Ptr (Some x) \<Rightarrow> x | _ \<Rightarrow> v)"
    have C1: "C t1 v1"
      using shape unfolding t1_def v1_def
      by (auto split: htype.splits hvalue.splits option.splits)
    from RT C1 levelsOK_def_succ [OF L] c(2) obtain out where
      h1: "headOK c ?L1 out" and len: "c' - c \<le> int (length out)"
      and dec1: "\<And>row0. d row0 ?L1 v1 = Inr (row0 @ out)"
      and rec1: "\<And>rest. stops c' ?L1 rest \<Longrightarrow>
                 rc t1 (Zero t1) ?L1 (out @ rest) = Some (Inr (v1, rest, None))"
      unfolding roundTrips_def by blast
    have h: "headOK c L out" using h1 d1 by (simp add: headOK_def)
    have dec: "\<forall>row0. deconstructOptional d row0 L v = Inr (row0 @ out)"
      using valid nz dec1 by (simp add: deconstructOptional_def v1_def)
    have ne: "out \<noteq> []" using h by (simp add: headOK_def)
    have sw: "startsWith (out @ rest) c" for rest
      using h ne by (simp add: startsWith_def headOK_def)
    have ge: "\<not> definitionLevel (hd (out @ rest)) <s definitionLevel' L + 1" for rest
      using h1 ne by (simp add: word_sless_alt headOK_def)
    have rec: "reconstructOptional c (c' - c) rc t (Zero t) L (out @ rest)
        = Some (Inr (v, rest, None))" if st: "stops c' L rest" for rest
    proof -
      from st have "stops c' ?L1 rest" by (simp add: stops_def)
      note r = rec1 [OF this]
      show ?thesis
      proof (cases "\<exists>t'. t = TPtr t'")
        case True
        then obtain t' where TPtr: "t = TPtr t'" by blast
        with shape obtain x where v: "v = Ptr (Some x)"
          by (auto split: hvalue.splits option.splits)
        from TPtr v have "t1 = t'" "v1 = x" by (simp_all add: t1_def v1_def)
        with r TPtr v show ?thesis
          unfolding reconstructOptional_def using sw [of rest] len ge [of rest]
          by (simp add: Let_def)
      next
        case False
        with shape have "t1 = t" "v1 = v"
          by (auto simp: t1_def v1_def split: htype.splits hvalue.splits)
        with r False show ?thesis
          unfolding reconstructOptional_def using sw [of rest] len ge [of rest]
          by (cases t) (simp_all add: Let_def)
      qed
    qed
    from h len dec rec c show ?thesis by (intro exI [of _ out]) simp
  qed
qed


subsection \<open>Repeated nodes\<close>

text \<open>A repeated field holds a slice that is not nil; it may be empty.\<close>

definition repeatedConforms :: "(htype \<Rightarrow> hvalue \<Rightarrow> bool) \<Rightarrow> htype \<Rightarrow> hvalue \<Rightarrow> bool" where
  "repeatedConforms C t v \<longleftrightarrow>
     (case t of
        TSlice elem \<Rightarrow> (case v of Slice (Some xs) \<Rightarrow> list_all (C elem) xs | _ \<Rightarrow> False)
      | _ \<Rightarrow> False)"

definition stopsLoop :: "int \<Rightarrow> levels \<Rightarrow> Row \<Rightarrow> bool" where
  "stopsLoop c' L rest \<longleftrightarrow>
     rest = [] \<or> c' \<le> sint (ColumnIndex (hd rest))
     \<or> sint (repetitionLevel (hd rest)) < sint (repetitionDepth L)"

lemma repeated_elements:
  assumes RT: "roundTrips c c' d rc C k" and c: "c < c'"
  shows "list_all (C te) ys \<Longrightarrow> xs = done @ ys \<Longrightarrow> levelsOK Ln k \<Longrightarrow>
     (ys = [] \<longrightarrow> repetitionLevel' Ln = repetitionDepth Ln) \<Longrightarrow> 0 < length done + m \<Longrightarrow>
     \<exists>out. (ys = [] \<longrightarrow> out = [])
       \<and> (ys \<noteq> [] \<longrightarrow> headOK c Ln out \<and> c' - c \<le> int (length out))
       \<and> (\<forall>row0. deconstructElements d (Slice (Some xs)) (length xs) (length done) row0 Ln
              = Inr (row0 @ out))
       \<and> (\<forall>rest. stopsLoop c' Ln rest \<longrightarrow>
              reconstructElements rc c te Ln (done @ replicate m (Zero te)) (length done)
                (out @ rest) = Some (Inr (Slice (Some xs), rest, None)))"
proof (induction ys arbitrary: "done" m Ln)
  case Nil
  then have xs: "xs = done" and rl: "repetitionLevel' Ln = repetitionDepth Ln" by simp_all
  have dec: "\<forall>row0. deconstructElements d (Slice (Some xs)) (length xs) (length done) row0 Ln
      = Inr (row0 @ [])"
    by (subst deconstructElements.simps) (simp add: xs)
  have rec: "reconstructElements rc c te Ln (done @ replicate m (Zero te)) (length done) rest
      = Some (Inr (Slice (Some xs), rest, None))" if "stopsLoop c' Ln rest" for rest
  proof -
    from that c rl have "(startsWith rest c
        \<and> repetitionLevel (hd rest) = repetitionLevel' Ln) = False"
      by (auto simp: stopsLoop_def startsWith_def)
    then show ?thesis
    proof -
      assume f: "(startsWith rest c
        \<and> repetitionLevel (hd rest) = repetitionLevel' Ln) = False"
      have "reconstructElements rc c te Ln (done @ replicate m (Zero te)) (length done) rest
          = Some (Inr (Slice (Some (take (length done) (done @ replicate m (Zero te)))),
                       rest, None))"
        by (subst reconstructElements.simps) (simp only: f if_False)
      then show ?thesis by (simp add: xs)
    qed
  qed
  from dec rec show ?case by (intro exI [of _ "[]"]) simp
next
  case (Cons y ys)
  let ?Ln' = "Ln\<lparr>repetitionLevel' := repetitionDepth Ln\<rparr>"
  let ?buf = "done @ replicate m (Zero te)"
  let ?n = "length done"
  let ?buf1 = "if ?n = length ?buf then ?buf @ replicate (length ?buf) (Zero te) else ?buf"
  define m' where "m' = (if m = 0 then length done - 1 else m - 1)"
  from Cons.prems have Cy: "C te y" and Cys: "list_all (C te) ys"
    and xs: "xs = (done @ [y]) @ ys" and Ln: "levelsOK Ln k" and pos: "0 < length done + m"
    by simp_all
  have Ln': "levelsOK ?Ln' k" using Ln by (simp add: levelsOK_def)
  from Cons.IH [OF Cys xs Ln', of m'] obtain out2 where
    e2: "ys = [] \<longrightarrow> out2 = []"
    and h2: "ys \<noteq> [] \<longrightarrow> headOK c ?Ln' out2"
    and dec2: "\<And>row0. deconstructElements d (Slice (Some xs)) (length xs) (Suc ?n) row0 ?Ln'
              = Inr (row0 @ out2)"
    and rec2: "\<And>rest. stopsLoop c' ?Ln' rest \<Longrightarrow>
              reconstructElements rc c te ?Ln' ((done @ [y]) @ replicate m' (Zero te)) (Suc ?n)
                (out2 @ rest) = Some (Inr (Slice (Some xs), rest, None))"
    by auto
  from RT Cy Ln c obtain out1 where
    h1: "headOK c Ln out1" and len1: "c' - c \<le> int (length out1)"
    and dec1: "\<And>row0. d row0 Ln y = Inr (row0 @ out1)"
    and rec1: "\<And>rest. stops c' Ln rest \<Longrightarrow>
                 rc te (Zero te) Ln (out1 @ rest) = Some (Inr (y, rest, None))"
    unfolding roundTrips_def by blast
  have ne1: "out1 \<noteq> []" using h1 by (simp add: headOK_def)
  have nth: "xs ! ?n = y" by (simp add: xs)
  have dec: "\<forall>row0. deconstructElements d (Slice (Some xs)) (length xs) ?n row0 Ln
      = Inr (row0 @ (out1 @ out2))"
  proof
    fix row0
    have "?n < length xs" by (simp add: xs)
    then show "deconstructElements d (Slice (Some xs)) (length xs) ?n row0 Ln
      = Inr (row0 @ (out1 @ out2))"
      using nth by (subst deconstructElements.simps) (simp add: dec1 dec2)
  qed
  have h: "headOK c Ln (out1 @ out2)" using h1 ne1 by (simp add: headOK_def)
  have rec: "reconstructElements rc c te Ln ?buf ?n ((out1 @ out2) @ rest)
      = Some (Inr (Slice (Some xs), rest, None))" if st: "stopsLoop c' Ln rest" for rest
  proof -
    have cond: "startsWith (out1 @ out2 @ rest) c
        \<and> repetitionLevel (hd (out1 @ out2 @ rest)) = repetitionLevel' Ln"
      using h1 ne1 by (simp add: startsWith_def headOK_def)
    have zero: "?buf1 ! ?n = Zero te"
      using pos by (auto simp: nth_append)
    have upd: "?buf1[?n := y] = (done @ [y]) @ replicate m' (Zero te)"
    proof (cases "m = 0")
      case True
      with pos obtain j where j: "length done = Suc j" by (cases "length done") auto
      with True show ?thesis by (simp add: m'_def list_update_append)
    next
      case False
      then obtain j where j: "m = Suc j" by (cases m) auto
      then show ?thesis by (simp add: m'_def list_update_append)
    qed
    have st1: "stops c' Ln (out2 @ rest)"
    proof (cases "ys = []")
      case True
      with e2 st show ?thesis by (auto simp: stops_def stopsLoop_def)
    next
      case False
      with h2 have "headOK c ?Ln' out2" by simp
      then show ?thesis by (simp add: stops_def headOK_def)
    qed
    have st2: "stopsLoop c' ?Ln' rest" using st by (simp add: stopsLoop_def)
    have "reconstructElements rc c te Ln ?buf ?n (out1 @ out2 @ rest) =
        reconstructElements rc c te ?Ln' (?buf1[?n := y]) (Suc ?n) (out2 @ rest)"
      using cond rec1 [OF st1] zero
      by (subst reconstructElements.simps) (simp add: Let_def)
    also have "\<dots> = Some (Inr (Slice (Some xs), rest, None))"
      unfolding upd by (rule rec2 [OF st2])
    finally show ?thesis by simp
  qed
  from h len1 dec rec show ?case by (intro exI [of _ "out1 @ out2"]) simp
qed


lemma nullValues_depth [simp]:
  "nullValues (L\<lparr>repetitionDepth := x\<rparr>) c n = nullValues L c n"
  by (simp add: nullValues_def nullValue_def)

lemma roundTrips_repeated:
  assumes RT: "roundTrips c c' d rc C k" and nulls: "emitsNulls c c' d"
    and c: "0 \<le> c" "c < c'" "c' \<le> 128"
  shows "roundTrips c c' (deconstructRepeated d) (reconstructRepeated c (c' - c) rc)
           (repeatedConforms C) (Suc k)"
  unfolding roundTrips_def
proof (intro allI impI)
  fix t v L
  assume conf: "repeatedConforms C t v" and L: "levelsOK L (Suc k)"
  from conf obtain te xs where t: "t = TSlice te" and v: "v = Slice (Some xs)"
    and Cxs: "list_all (C te) xs"
    by (auto simp: repeatedConforms_def split: htype.splits hvalue.splits option.splits)
  let ?L1 = "L\<lparr>definitionLevel' := definitionLevel' L + 1,
                 repetitionDepth := repetitionDepth L + 1\<rparr>"
  let ?n = "nat (c' - c)"
  have n: "0 < ?n" "int ?n = c' - c" using c by simp_all
  have d1: "sint (definitionLevel' L + 1) = sint (definitionLevel' L) + 1"
    and r1: "sint (repetitionDepth L + 1) = sint (repetitionDepth L) + 1"
    using L by (simp_all add: levelsOK_def sint_succ_int8)
  have L1: "levelsOK ?L1 k" using L d1 r1 by (simp add: levelsOK_def)
  show "\<exists>out. (c < c' \<longrightarrow> headOK c L out) \<and> (c = c' \<longrightarrow> out = [])
      \<and> c' - c \<le> int (length out)
      \<and> (\<forall>row0. deconstructRepeated d row0 L v = Inr (row0 @ out))
      \<and> (\<forall>rest. stops c' L rest \<longrightarrow>
            reconstructRepeated c (c' - c) rc t (Zero t) L (out @ rest)
              = Some (Inr (v, rest, None)))"
  proof (cases "xs = []")
    case True
    let ?out = "nullValues L c ?n"
    have h: "headOK c L ?out" using c n by (intro headOK_nullValues) simp_all
    have dec: "\<forall>row0. deconstructRepeated d row0 L v = Inr (row0 @ ?out)"
      using nulls True v by (simp add: deconstructRepeated_def emitsNulls_def)
    have ne: "?out \<noteq> []" using h by (simp add: headOK_def)
    have hd: "hd (?out @ rest) = nullValue L c" for rest
      using ne n by (simp add: hd_nullValues)
    have sw: "startsWith (?out @ rest) c" for rest
      using h ne c by (simp add: startsWith_def headOK_def)
    have lt: "definitionLevel (nullValue L c) <s definitionLevel' L + 1"
      by (simp add: word_sless_alt d1 nullValue_def)
    have rec: "reconstructRepeated c (c' - c) rc t (Zero t) L (?out @ rest)
        = Some (Inr (v, rest, None))" for rest
      unfolding reconstructRepeated_def using sw [of rest] n True lt
      by (simp add: hd Let_def t v)
    from h dec rec n c show ?thesis by (intro exI [of _ ?out]) simp
  next
    case False
    have "\<exists>out. ([] @ xs = [] \<longrightarrow> out = [])
       \<and> (xs \<noteq> [] \<longrightarrow> headOK c ?L1 out \<and> c' - c \<le> int (length out))
       \<and> (\<forall>row0. deconstructElements d (Slice (Some xs)) (length xs) (length ([] :: hvalue list))
              row0 ?L1 = Inr (row0 @ out))
       \<and> (\<forall>rest. stopsLoop c' ?L1 rest \<longrightarrow>
              reconstructElements rc c te ?L1 ([] @ replicate 10 (Zero te))
                (length ([] :: hvalue list)) (out @ rest)
                = Some (Inr (Slice (Some xs), rest, None)))"
      using repeated_elements [OF RT c(2), of te xs xs "[]" ?L1 10] Cxs L1 False by simp
    then obtain out where
      h1: "headOK c ?L1 out" and len: "c' - c \<le> int (length out)"
      and dec1: "\<And>row0. deconstructElements d (Slice (Some xs)) (length xs) 0 row0 ?L1
              = Inr (row0 @ out)"
      and rec1: "\<And>rest. stopsLoop c' ?L1 rest \<Longrightarrow>
              reconstructElements rc c te ?L1 (replicate 10 (Zero te)) 0 (out @ rest)
                = Some (Inr (Slice (Some xs), rest, None))"
      using False by auto
    have h: "headOK c L out" using h1 d1 by (simp add: headOK_def)
    have ne: "out \<noteq> []" using h by (simp add: headOK_def)
    have swap: "L\<lparr>repetitionDepth := repetitionDepth L + 1,
                    definitionLevel' := definitionLevel' L + 1\<rparr> = ?L1"
      by simp
    have dec: "\<forall>row0. deconstructRepeated d row0 L v = Inr (row0 @ out)"
      using False dec1 by (simp add: deconstructRepeated_def v Let_def swap)
    have sw: "startsWith (out @ rest) c" for rest
      using h ne by (simp add: startsWith_def headOK_def)
    have ge: "\<not> definitionLevel (hd (out @ rest)) <s definitionLevel' L + 1" for rest
      using h1 ne by (simp add: word_sless_alt headOK_def)
    have rec: "reconstructRepeated c (c' - c) rc t (Zero t) L (out @ rest)
        = Some (Inr (v, rest, None))" if st: "stops c' L rest" for rest
    proof -
      from st r1 have "stopsLoop c' ?L1 rest" by (auto simp: stops_def stopsLoop_def)
      from rec1 [OF this] show ?thesis
        unfolding reconstructRepeated_def using sw [of rest] len ge [of rest]
        by (simp add: Let_def t v)
    qed
    from h len dec rec c show ?thesis by (intro exI [of _ out]) simp
  qed
qed


subsection \<open>Groups\<close>

fun fieldsConform :: "(htype \<Rightarrow> hvalue \<Rightarrow> bool) list \<Rightarrow> htype list \<Rightarrow> hvalue list \<Rightarrow> bool" where
  "fieldsConform [] [] [] = True"
| "fieldsConform (C # Cs) (t # ts) (v # vs) = (C t v \<and> fieldsConform Cs ts vs)"
| "fieldsConform Cs ts vs = False"

definition groupConforms :: "(htype \<Rightarrow> hvalue \<Rightarrow> bool) list \<Rightarrow> htype \<Rightarrow> hvalue \<Rightarrow> bool" where
  "groupConforms Cs t v \<longleftrightarrow>
     (case t of
        TStruct ts \<Rightarrow> (case v of Struct vs \<Rightarrow> fieldsConform Cs ts vs | _ \<Rightarrow> False)
      | _ \<Rightarrow> False)"

fun fieldsRoundTrip ::
  "int \<Rightarrow> deconstructFunc list \<Rightarrow> (string \<times> reconstructFunc) list \<Rightarrow>
   (htype \<Rightarrow> hvalue \<Rightarrow> bool) list \<Rightarrow> nat \<Rightarrow> int \<Rightarrow> bool" where
  "fieldsRoundTrip c [] [] [] k c' = (c' = c)"
| "fieldsRoundTrip c (d # ds) (rc # rcs) (C # Cs) k c' =
     (\<exists>c1. c \<le> c1 \<and> roundTrips c c1 d (snd rc) C k \<and> fieldsRoundTrip c1 ds rcs Cs k c')"
| "fieldsRoundTrip c ds rcs Cs k c' = False"

lemma fieldsRoundTrip_le: "fieldsRoundTrip c ds rcs Cs k c' \<Longrightarrow> c \<le> c'"
proof (induction c ds rcs Cs k c' rule: fieldsRoundTrip.induct)
  case (2 c d ds rc rcs C Cs k c')
  then obtain c1 where "c \<le> c1" and "fieldsRoundTrip c1 ds rcs Cs k c'" by auto
  with "2.IH" [of c1] show ?case by simp
qed simp_all

lemma fields_roundTrip:
  "fieldsRoundTrip c ds rcs Cs k c' \<Longrightarrow> levelsOK L k \<Longrightarrow> fieldsConform Cs ts vs \<Longrightarrow>
   \<exists>out. (c < c' \<longrightarrow> headOK c L out) \<and> (c = c' \<longrightarrow> out = [])
     \<and> c' - c \<le> int (length out)
     \<and> (\<forall>row0 pre. deconstructFields ds (Struct (pre @ vs)) (length pre) row0 L
            = Inr (row0 @ out))
     \<and> (\<forall>rest tpre pre. length tpre = length pre \<longrightarrow> stops c' L rest \<longrightarrow>
            reconstructFields rcs (length pre) (TStruct (tpre @ ts))
              (Struct (pre @ map Zero ts)) L (out @ rest)
              = Some (Inr (Struct (pre @ vs), rest, None)))"
proof (induction c ds rcs Cs k c' arbitrary: ts vs rule: fieldsRoundTrip.induct)
  case (1 c k c')
  then have "ts = []" "vs = []" "c' = c"
    by (auto elim: fieldsConform.elims)
  then show ?case by simp
next
  case (2 c d ds rc rcs C Cs k c')
  from "2.prems"(3) obtain t ts1 v vs1 where ts: "ts = t # ts1" and vs: "vs = v # vs1"
    and Ctv: "C t v" and rest_conf: "fieldsConform Cs ts1 vs1"
    by (auto elim: fieldsConform.elims)
  from "2.prems"(1) obtain c1 where c1: "c \<le> c1" and RT: "roundTrips c c1 d (snd rc) C k"
    and FR: "fieldsRoundTrip c1 ds rcs Cs k c'"
    by auto
  note L = "2.prems"(2)
  from "2.IH" [OF FR L rest_conf] obtain out2 where
    h2: "c1 < c' \<longrightarrow> headOK c1 L out2" and e2: "c1 = c' \<longrightarrow> out2 = []"
    and len2: "c' - c1 \<le> int (length out2)"
    and dec2: "\<And>row0 pre. deconstructFields ds (Struct (pre @ vs1)) (length pre) row0 L
            = Inr (row0 @ out2)"
    and rec2: "\<And>rest tpre pre. length tpre = length pre \<Longrightarrow> stops c' L rest \<Longrightarrow>
            reconstructFields rcs (length pre) (TStruct (tpre @ ts1))
              (Struct (pre @ map Zero ts1)) L (out2 @ rest)
              = Some (Inr (Struct (pre @ vs1), rest, None))"
    by blast
  from RT Ctv L obtain out1 where
    h1: "c < c1 \<longrightarrow> headOK c L out1" and e1: "c = c1 \<longrightarrow> out1 = []"
    and len1: "c1 - c \<le> int (length out1)"
    and dec1: "\<And>row0. d row0 L v = Inr (row0 @ out1)"
    and rec1: "\<And>rest. stops c1 L rest \<Longrightarrow>
                 snd rc t (Zero t) L (out1 @ rest) = Some (Inr (v, rest, None))"
    unfolding roundTrips_def by blast
  have c1c': "c1 \<le> c'" using FR by (rule fieldsRoundTrip_le)
  have h: "c < c' \<longrightarrow> headOK c L (out1 @ out2)"
  proof
    assume lt: "c < c'"
    show "headOK c L (out1 @ out2)"
    proof (cases "c < c1")
      case True
      with h1 have "headOK c L out1" by simp
      then show ?thesis by (simp add: headOK_def)
    next
      case False
      with c1 have eq: "c = c1" by simp
      with e1 lt h2 show ?thesis by simp
    qed
  qed
  have e: "c = c' \<longrightarrow> out1 @ out2 = []"
    using c1 c1c' e1 e2 by auto
  have len: "c' - c \<le> int (length (out1 @ out2))" using len1 len2 by simp
  have dec: "deconstructFields (d # ds) (Struct (pre @ vs)) (length pre) row0 L
            = Inr (row0 @ (out1 @ out2))" for row0 pre
  proof -
    have "deconstructFields ds (Struct ((pre @ [v]) @ vs1)) (length (pre @ [v])) (row0 @ out1) L
        = Inr ((row0 @ out1) @ out2)"
      by (rule dec2)
    then show ?thesis by (simp add: vs dec1)
  qed
  have rec: "reconstructFields (rc # rcs) (length pre) (TStruct (tpre @ ts))
              (Struct (pre @ map Zero ts)) L ((out1 @ out2) @ rest)
              = Some (Inr (Struct (pre @ vs), rest, None))"
    if eq: "length tpre = length pre" and st: "stops c' L rest" for rest tpre pre
  proof -
    have st1: "stops c1 L (out2 @ rest)"
    proof (cases "c1 = c'")
      case True
      with e2 st show ?thesis by simp
    next
      case False
      with c1c' h2 have "headOK c1 L out2" by simp
      then show ?thesis by (simp add: stops_def headOK_def)
    qed
    have slot: "fieldSlot (TStruct (tpre @ ts)) (Struct (pre @ map Zero ts)) (length pre)
        = Inr (t, Zero t)"
      using eq by (simp add: ts nth_append)
    have setf: "setField (Struct (pre @ map Zero ts)) (length pre) v
        = Struct ((pre @ [v]) @ map Zero ts1)"
      by (simp add: ts list_update_append)
    have next_call: "reconstructFields rcs (length (pre @ [v])) (TStruct ((tpre @ [t]) @ ts1))
              (Struct ((pre @ [v]) @ map Zero ts1)) L (out2 @ rest)
              = Some (Inr (Struct ((pre @ [v]) @ vs1), rest, None))"
      by (rule rec2) (simp_all add: eq st)
    show ?thesis
      using slot setf rec1 [OF st1] next_call by (simp add: ts vs)
  qed
  from h e len dec rec show ?case by (intro exI [of _ "out1 @ out2"]) simp
qed simp_all

lemma roundTrips_group:
  assumes FR: "fieldsRoundTrip c ds rcs Cs k c'"
  shows "roundTrips c c' (deconstructGroup ds) (reconstructGroup rcs) (groupConforms Cs) k"
  unfolding roundTrips_def
proof (intro allI impI)
  fix t v L
  assume conf: "groupConforms Cs t v" and L: "levelsOK L k"
  from conf obtain ts vs where t: "t = TStruct ts" and v: "v = Struct vs"
    and fc: "fieldsConform Cs ts vs"
    by (auto simp: groupConforms_def split: htype.splits hvalue.splits)
  from fields_roundTrip [OF FR L fc] obtain out where
    h: "c < c' \<longrightarrow> headOK c L out" and e: "c = c' \<longrightarrow> out = []"
    and len: "c' - c \<le> int (length out)"
    and dec: "\<And>row0 pre. deconstructFields ds (Struct (pre @ vs)) (length pre) row0 L
            = Inr (row0 @ out)"
    and rec: "\<And>rest tpre pre. length tpre = length pre \<Longrightarrow> stops c' L rest \<Longrightarrow>
            reconstructFields rcs (length pre) (TStruct (tpre @ ts))
              (Struct (pre @ map Zero ts)) L (out @ rest)
              = Some (Inr (Struct (pre @ vs), rest, None))"
    by blast
  have "\<forall>row0. deconstructGroup ds row0 L v = Inr (row0 @ out)"
    using dec [of "[]"] by (simp add: deconstructGroup_def v)
  moreover have "\<forall>rest. stops c' L rest \<longrightarrow>
      reconstructGroup rcs t (Zero t) L (out @ rest) = Some (Inr (v, rest, None))"
    using rec [of "[]" "[]"] by (simp add: reconstructGroup_def t v)
  ultimately show "\<exists>out. (c < c' \<longrightarrow> headOK c L out) \<and> (c = c' \<longrightarrow> out = [])
      \<and> c' - c \<le> int (length out)
      \<and> (\<forall>row0. deconstructGroup ds row0 L v = Inr (row0 @ out))
      \<and> (\<forall>rest. stops c' L rest \<longrightarrow>
            reconstructGroup rcs t (Zero t) L (out @ rest) = Some (Inr (v, rest, None)))"
    using h e len by blast
qed

subsection \<open>Maps\<close>

text \<open>
  The keys of a Go map are pairwise different by \<open>==\<close>. The types of keys considered
  here are the scalars, the byte arrays of fixed length and the structs of them: a key
  that is a pointer is compared by its address, which the host values do not have.
\<close>

fun distinctKeys :: "hvalue list \<Rightarrow> bool" where
  "distinctKeys [] = True"
| "distinctKeys (k # ks) = (list_all (\<lambda>k'. \<not> goEqual k k') ks \<and> distinctKeys ks)"

fun comparable :: "htype \<Rightarrow> bool" where
  "comparable (TScalar k) = True"
| "comparable (TFixedLen n) = True"
| "comparable TByte = True"
| "comparable (TStruct ts) = list_all comparable ts"
| "comparable t = False"

text \<open>
  A map is not nil; its keys have the key type, which is comparable, and its values the
  value type of the key-value struct of the node and of the destination; every key is
  equal to itself, holding no NaN; and the key-value structs of its entries conform to
  the schema of the key-value struct.
\<close>

definition mapConforms ::
  "htype \<Rightarrow> htype \<Rightarrow> (htype \<Rightarrow> hvalue \<Rightarrow> bool) \<Rightarrow> htype \<Rightarrow> hvalue \<Rightarrow> bool" where
  "mapConforms kt vt C t v \<longleftrightarrow>
     t = TMap kt vt \<and> comparable kt
     \<and> (case v of
          MapV (Some m) \<Rightarrow>
            distinctKeys (map fst m)
            \<and> list_all (\<lambda>e. goEqual (fst e) (fst e) \<and> hasType kt (fst e) \<and> hasType vt (snd e)) m
            \<and> C (TSlice (TStruct [kt, vt])) (Slice (Some (map (\<lambda>(k, x). Struct [k, x]) m)))
        | _ \<Rightarrow> False)"

lemma distinctKeys_append:
  "distinctKeys (xs @ ys) \<longleftrightarrow>
     distinctKeys xs \<and> distinctKeys ys \<and> (\<forall>x \<in> set xs. \<forall>y \<in> set ys. \<not> goEqual x y)"
  by (induction xs) (auto simp: list_all_iff)

lemma find_entry:
  "distinctKeys (map fst m) \<Longrightarrow> e \<in> set m \<Longrightarrow> goEqual (fst e) (fst e) \<Longrightarrow>
   find (\<lambda>e'. goEqual (fst e') (fst e)) m = Some e"
proof (induction m)
  case Nil
  then show ?case by simp
next
  case (Cons e0 m)
  show ?case
  proof (cases "e = e0")
    case True
    with Cons.prems(3) show ?thesis by simp
  next
    case False
    with Cons.prems(2) have mem: "e \<in> set m" by simp
    with Cons.prems(1) have "\<not> goEqual (fst e0) (fst e)"
      by (auto simp: list_all_iff)
    moreover from Cons.prems(1) have "distinctKeys (map fst m)" by simp
    ultimately show ?thesis using Cons.IH mem Cons.prems(3) by simp
  qed
qed

lemma copyEntries_all:
  assumes dist: "distinctKeys (map fst m)"
    and ok: "list_all (\<lambda>e. goEqual (fst e) (fst e) \<and> hasType kt (fst e) \<and> hasType vt (snd e)) m"
  shows "m = pre @ suf \<Longrightarrow>
     copyEntries kt vt (MapV (Some m)) (map fst suf) (length pre)
       (map (\<lambda>(k, x). Struct [k, x]) pre @ replicate (length suf) (Struct [Zero kt, Zero vt]))
     = Inr (map (\<lambda>(k, x). Struct [k, x]) m)"
proof (induction suf arbitrary: pre)
  case Nil
  then show ?case by simp
next
  case (Cons e suf)
  obtain k x where e: "e = (k, x)" by (cases e)
  from Cons.prems e have mem: "(k, x) \<in> set m" by simp
  with ok have self: "goEqual k k" and tk: "hasType kt k" and tx: "hasType vt x"
    by (auto simp: list_all_iff)
  from find_entry [OF dist mem] self
  have found: "find (\<lambda>e'. goEqual (fst e') k) m = Some (k, x)" by simp
  let ?S = "\<lambda>(k, x). Struct [k, x]"
  let ?Z = "Struct [Zero kt, Zero vt]"
  have upd: "(map ?S pre @ replicate (length (e # suf)) ?Z)
        [length pre := setField (setField ((map ?S pre @ replicate (length (e # suf)) ?Z) ! length pre) 0 k) 1 x]
      = map ?S (pre @ [e]) @ replicate (length suf) ?Z"
    by (simp add: e nth_append list_update_append)
  have m': "m = (pre @ [e]) @ suf" using Cons.prems by simp
  have "copyEntries kt vt (MapV (Some m)) (map fst (e # suf)) (length pre)
          (map ?S pre @ replicate (length (e # suf)) ?Z)
      = copyEntries kt vt (MapV (Some m)) (map fst suf) (length (pre @ [e]))
          (map ?S (pre @ [e]) @ replicate (length suf) ?Z)"
    using found tk tx upd by (simp add: e Convert_def)
  also have "\<dots> = Inr (map ?S m)" by (rule Cons.IH [OF m'])
  finally show ?case .
qed

lemma SetMapIndex_fresh:
  "list_all (\<lambda>e. \<not> goEqual (fst e) k) m \<Longrightarrow> SetMapIndex m k x = m @ [(k, x)]"
  by (induction m) auto

lemma insertPairs_distinct:
  "distinctKeys (map fst (m0 @ m)) \<Longrightarrow>
   list_all (\<lambda>e. hasType kt (fst e) \<and> hasType vt (snd e)) m \<Longrightarrow>
   insertPairs kt vt m0 (map (\<lambda>(k, x). Struct [k, x]) m) = Inr (m0 @ m)"
proof (induction m arbitrary: m0)
  case Nil
  then show ?case by simp
next
  case (Cons e m)
  obtain k x where e: "e = (k, x)" by (cases e)
  from Cons.prems(1) e have fresh: "list_all (\<lambda>e'. \<not> goEqual (fst e') k) m0"
    by (auto simp: distinctKeys_append list_all_iff)
  from Cons.prems(1) e have "distinctKeys (map fst ((m0 @ [(k, x)]) @ m))" by simp
  moreover from Cons.prems(2) have "list_all (\<lambda>e. hasType kt (fst e) \<and> hasType vt (snd e)) m"
    by simp
  ultimately have "insertPairs kt vt (m0 @ [(k, x)]) (map (\<lambda>(k, x). Struct [k, x]) m)
      = Inr ((m0 @ [(k, x)]) @ m)"
    by (rule Cons.IH)
  with fresh Cons.prems(2) show ?case
    by (simp add: e SetMapIndex_fresh Convert_def)
qed

lemma roundTrips_map:
  assumes RT: "roundTrips c c' d rc C k"
  shows "roundTrips c c' (deconstructMap kt vt d) (reconstructMap kt vt rc)
           (mapConforms kt vt C) k"
  unfolding roundTrips_def
proof (intro allI impI)
  fix t v L
  assume conf: "mapConforms kt vt C t v" and L: "levelsOK L k"
  from conf obtain m where t: "t = TMap kt vt" and v: "v = MapV (Some m)"
    and dist: "distinctKeys (map fst m)"
    and ok: "list_all (\<lambda>e. goEqual (fst e) (fst e) \<and> hasType kt (fst e) \<and> hasType vt (snd e)) m"
    and C1: "C (TSlice (TStruct [kt, vt])) (Slice (Some (map (\<lambda>(k, x). Struct [k, x]) m)))"
    by (auto simp: mapConforms_def split: hvalue.splits option.splits)
  let ?t1 = "TSlice (TStruct [kt, vt])" and ?v1 = "Slice (Some (map (\<lambda>(k, x). Struct [k, x]) m))"
  from RT C1 L obtain out where
    h: "c < c' \<longrightarrow> headOK c L out" and e: "c = c' \<longrightarrow> out = []"
    and len: "c' - c \<le> int (length out)"
    and dec1: "\<And>row0. d row0 L ?v1 = Inr (row0 @ out)"
    and rec1: "\<And>rest. stops c' L rest \<Longrightarrow>
                 rc ?t1 (Zero ?t1) L (out @ rest) = Some (Inr (?v1, rest, None))"
    unfolding roundTrips_def by blast
  have copy: "copyEntries kt vt (MapV (Some m)) (map fst m) 0
      (replicate (length m) (Zero (TStruct [kt, vt]))) = Inr (map (\<lambda>(k, x). Struct [k, x]) m)"
    using copyEntries_all [OF dist ok, of "[]" m] by simp
  have typed: "list_all (\<lambda>e. hasType kt (fst e) \<and> hasType vt (snd e)) m"
    using ok by (simp add: list_all_iff)
  have ins: "insertPairs kt vt [] (map (\<lambda>(k, x). Struct [k, x]) m) = Inr m"
    using insertPairs_distinct [of "[]" m kt vt] dist typed by simp
  have "\<forall>row0. deconstructMap kt vt d row0 L v = Inr (row0 @ out)"
    using dec1 copy by (simp add: deconstructMap_def v)
  moreover have "\<forall>rest. stops c' L rest \<longrightarrow>
      reconstructMap kt vt rc t (Zero t) L (out @ rest) = Some (Inr (v, rest, None))"
    using rec1 ins by (simp add: reconstructMap_def t v)
  ultimately show "\<exists>out. (c < c' \<longrightarrow> headOK c L out) \<and> (c = c' \<longrightarrow> out = [])
      \<and> c' - c \<le> int (length out)
      \<and> (\<forall>row0. deconstructMap kt vt d row0 L v = Inr (row0 @ out))
      \<and> (\<forall>rest. stops c' L rest \<longrightarrow>
            reconstructMap kt vt rc t (Zero t) L (out @ rest) = Some (Inr (v, rest, None)))"
    using h e len by blast
qed


subsection \<open>Schemas\<close>

text \<open>
  A schema is well formed when every optional group, every repeated group, every element
  of a list and every key-value group of a map has a leaf column; a required group may be
  empty. A record of the shape of a schema conforms to it, node by node, along the
  dispatch of the compiler. \<open>levelDepth\<close> is the largest number of optional and repeated
  nodes on a path of the schema.
\<close>

fun wellFormed :: "node \<Rightarrow> bool" where
  "wellFormed (Leaf r k) = True"
| "wellFormed (Group r cs) =
     ((r = RequiredNode \<or> 0 < sum_list (map (\<lambda>c. numLeaves (snd c)) cs))
      \<and> list_all (\<lambda>c. wellFormed (snd c)) cs)"
| "wellFormed (ListOf r e) = (0 < numLeaves e \<and> wellFormed e)"
| "wellFormed (MapOf r kv kt vt) = (0 < numLeaves kv \<and> wellFormed kv)"

function conformsTo :: "node \<Rightarrow> htype \<Rightarrow> hvalue \<Rightarrow> bool"
  and conformsAll :: "(string \<times> node) list \<Rightarrow> (htype \<Rightarrow> hvalue \<Rightarrow> bool) list"
where
  "conformsTo node =
     (if Optional node then optionalConforms (conformsTo (Required node))
      else if isRepeated node then repeatedConforms (conformsTo (Required node))
      else if isList node then conformsTo (Repeated (listElementOf node))
      else if isMap node then
        mapConforms (keyTypeOf node) (valueTypeOf node)
          (conformsTo (Repeated (schemaOfKeyValueElem node)))
      else if isLeaf node then leafConforms (kindOfNode node)
      else groupConforms (conformsAll (children node)))"
| "conformsAll [] = []"
| "conformsAll (child # rest) = conformsTo (snd child) # conformsAll rest"
  by pat_completeness auto
termination
proof (relation "measure (\<lambda>x. case x of Inl n \<Rightarrow> nodeMeasure n | Inr cs \<Rightarrow> childrenMeasure cs)")
  show "wf (measure (\<lambda>x. case x of Inl n \<Rightarrow> nodeMeasure n | Inr cs \<Rightarrow> childrenMeasure cs))"
    by simp
qed (auto simp: nodeMeasure_def childrenMeasure_def Optional_def isRepeated_def Required_def
      Repeated_def elim!: isList.elims isMap.elims isLeaf.elims split: node.splits)

declare conformsTo.simps [simp del]

function levelDepth :: "node \<Rightarrow> nat"
  and levelDepths :: "(string \<times> node) list \<Rightarrow> nat"
where
  "levelDepth node =
     (if Optional node then Suc (levelDepth (Required node))
      else if isRepeated node then Suc (levelDepth (Required node))
      else if isList node then levelDepth (Repeated (listElementOf node))
      else if isMap node then levelDepth (Repeated (schemaOfKeyValueElem node))
      else if isLeaf node then 0
      else levelDepths (children node))"
| "levelDepths [] = 0"
| "levelDepths (child # rest) = max (levelDepth (snd child)) (levelDepths rest)"
  by pat_completeness auto
termination
proof (relation "measure (\<lambda>x. case x of Inl n \<Rightarrow> nodeMeasure n | Inr cs \<Rightarrow> childrenMeasure cs)")
  show "wf (measure (\<lambda>x. case x of Inl n \<Rightarrow> nodeMeasure n | Inr cs \<Rightarrow> childrenMeasure cs))"
    by simp
qed (auto simp: nodeMeasure_def childrenMeasure_def Optional_def isRepeated_def Required_def
      Repeated_def elim!: isList.elims isMap.elims isLeaf.elims split: node.splits)

declare levelDepth.simps [simp del]

lemma wellFormed_Required: "wellFormed n \<Longrightarrow> wellFormed (Required n)"
  by (cases n) (simp_all add: Required_def)

lemma wellFormed_Repeated: "wellFormed n \<Longrightarrow> 0 < numLeaves n \<Longrightarrow> wellFormed (Repeated n)"
  by (cases n) (simp_all add: Repeated_def)

lemma numLeaves_pos: "wellFormed n \<Longrightarrow> repetitionOf n \<noteq> RequiredNode \<Longrightarrow> 0 < numLeaves n"
  by (cases n) simp_all

lemma reconstructFuncsOf_simps [simp]:
  "reconstructFuncsOf c [] = (c, [])"
  "reconstructFuncsOf c (child # rest) =
     (case reconstructFuncOf c (snd child) of
        (c', f) \<Rightarrow>
          (case reconstructFuncsOf c' rest of (c'', funcs) \<Rightarrow> (c'', (fst child, f) # funcs)))"
  by simp_all

lemma reconstructFuncOf_Optional:
  "Optional node \<Longrightarrow> reconstructFuncOf c node =
     (case reconstructFuncOf c (Required node) of
        (c', rc) \<Rightarrow> (c', reconstructOptional c (c' - c) rc))"
  by (subst reconstructFuncOf.simps(1)) simp

lemma reconstructFuncOf_Repeated:
  "\<not> Optional node \<Longrightarrow> isRepeated node \<Longrightarrow> reconstructFuncOf c node =
     (case reconstructFuncOf c (Required node) of
        (c', rc) \<Rightarrow> (c', reconstructRepeated c (c' - c) rc))"
  by (subst reconstructFuncOf.simps(1)) simp

lemma reconstructFuncOf_Leaf:
  "reconstructFuncOf c (Leaf RequiredNode k) = (c + 1, reconstructLeaf c)"
  by (subst reconstructFuncOf.simps(1)) (simp add: Optional_def isRepeated_def)

lemma reconstructFuncOf_Group:
  "reconstructFuncOf c (Group RequiredNode cs) =
     (case reconstructFuncsOf c cs of (c', funcs) \<Rightarrow> (c', reconstructGroup funcs))"
  by (subst reconstructFuncOf.simps(1)) (simp add: Optional_def isRepeated_def)

lemma reconstructFuncOf_List:
  "reconstructFuncOf c (ListOf RequiredNode e) = reconstructFuncOf c (Repeated e)"
  by (subst reconstructFuncOf.simps(1)) (simp add: Optional_def isRepeated_def)

lemma reconstructFuncOf_Map:
  "reconstructFuncOf c (MapOf RequiredNode kv kt vt) =
     (case reconstructFuncOf c (Repeated kv) of (c', rc) \<Rightarrow> (c', reconstructMap kt vt rc))"
  by (subst reconstructFuncOf.simps(1)) (simp add: Optional_def isRepeated_def)

lemma conformsTo_Optional:
  "Optional node \<Longrightarrow> conformsTo node = optionalConforms (conformsTo (Required node))"
  by (subst conformsTo.simps(1)) simp

lemma conformsTo_Repeated:
  "\<not> Optional node \<Longrightarrow> isRepeated node \<Longrightarrow>
   conformsTo node = repeatedConforms (conformsTo (Required node))"
  by (subst conformsTo.simps(1)) simp

lemma conformsTo_Leaf: "conformsTo (Leaf RequiredNode k) = leafConforms k"
  by (subst conformsTo.simps(1)) (simp add: Optional_def isRepeated_def)

lemma conformsTo_Group:
  "conformsTo (Group RequiredNode cs) = groupConforms (conformsAll cs)"
  by (subst conformsTo.simps(1)) (simp add: Optional_def isRepeated_def)

lemma conformsTo_List: "conformsTo (ListOf RequiredNode e) = conformsTo (Repeated e)"
  by (subst conformsTo.simps(1)) (simp add: Optional_def isRepeated_def)

lemma conformsTo_Map:
  "conformsTo (MapOf RequiredNode kv kt vt) = mapConforms kt vt (conformsTo (Repeated kv))"
  by (subst conformsTo.simps(1)) (simp add: Optional_def isRepeated_def)

lemma levelDepth_Optional: "Optional node \<Longrightarrow> levelDepth node = Suc (levelDepth (Required node))"
  by (subst levelDepth.simps(1)) simp

lemma levelDepth_Repeated:
  "isRepeated node \<Longrightarrow> levelDepth node = Suc (levelDepth (Required node))"
  by (subst levelDepth.simps(1)) simp

lemma levelDepth_Leaf: "levelDepth (Leaf RequiredNode k) = 0"
  by (subst levelDepth.simps(1)) (simp add: Optional_def isRepeated_def)

lemma levelDepth_Group: "levelDepth (Group RequiredNode cs) = levelDepths cs"
  by (subst levelDepth.simps(1)) (simp add: Optional_def isRepeated_def)

lemma levelDepth_List: "levelDepth (ListOf RequiredNode e) = levelDepth (Repeated e)"
  by (subst levelDepth.simps(1)) (simp add: Optional_def isRepeated_def)

lemma levelDepth_Map: "levelDepth (MapOf RequiredNode kv kt vt) = levelDepth (Repeated kv)"
  by (subst levelDepth.simps(1)) (simp add: Optional_def isRepeated_def)


lemma fieldsRoundTrip_mono:
  "fieldsRoundTrip c ds rcs Cs k c' \<Longrightarrow> k \<le> k' \<Longrightarrow> fieldsRoundTrip c ds rcs Cs k' c'"
proof (induction c ds rcs Cs k c' rule: fieldsRoundTrip.induct)
  case (2 c d ds rc rcs C Cs k c')
  then obtain c1 where c1: "c \<le> c1" and RT: "roundTrips c c1 d (snd rc) C k"
    and FR: "fieldsRoundTrip c1 ds rcs Cs k c'" by auto
  from "2.IH" [OF FR "2.prems"(2)] roundTrips_mono [OF RT "2.prems"(2)] c1
  show ?case by auto
qed simp_all

lemma emitsNulls_compiled:
  assumes "deconstructFuncOf c node = Inr (c', d)"
  shows "c' = c + int (numLeaves node) \<and> emitsNulls c c' d"
proof (cases "compilesOk c (numLeaves node)")
  case True
  with deconstruct_compile(1) [of c node] assms show ?thesis
    by (auto simp: emitsNulls_def)
next
  case False
  with deconstruct_compile(1) [of c node] assms show ?thesis by simp
qed

lemma compile_roundTrips:
  "wellFormed node \<longrightarrow> 0 \<le> c \<longrightarrow> c + int (numLeaves node) \<le> 128 \<longrightarrow>
     (\<exists>d rc. deconstructFuncOf c node = Inr (c + int (numLeaves node), d)
        \<and> reconstructFuncOf c node = (c + int (numLeaves node), rc)
        \<and> roundTrips c (c + int (numLeaves node)) d rc (conformsTo node) (levelDepth node))"
  and
  "list_all (\<lambda>ch. wellFormed (snd ch)) cs \<longrightarrow> 0 \<le> c \<longrightarrow> c + int (numLeavesOf cs) \<le> 128 \<longrightarrow>
     (\<exists>ds rcs. deconstructFuncsOf c cs = Inr (c + int (numLeavesOf cs), ds)
        \<and> reconstructFuncsOf c cs = (c + int (numLeavesOf cs), rcs)
        \<and> fieldsRoundTrip c ds rcs (conformsAll cs) (levelDepths cs) (c + int (numLeavesOf cs))
        \<and> length ds = length cs)"
proof (induction c node and c cs rule: deconstructFuncOf_deconstructFuncsOf.induct)
  case (1 c node)
  show ?case
  proof (intro impI)
    assume wf: "wellFormed node" and c0: "0 \<le> c" and le: "c + int (numLeaves node) \<le> 128"
    let ?n = "numLeaves node"
    show "\<exists>d rc. deconstructFuncOf c node = Inr (c + int ?n, d)
        \<and> reconstructFuncOf c node = (c + int ?n, rc)
        \<and> roundTrips c (c + int ?n) d rc (conformsTo node) (levelDepth node)"
    proof (cases "Optional node \<or> isRepeated node")
      case True
      have pos: "0 < ?n"
        using wf True by (intro numLeaves_pos) (auto simp: Optional_def isRepeated_def)
      have nR: "numLeaves (Required node) = ?n" "wellFormed (Required node)"
        using wf by (simp_all add: Required_def wellFormed_Required [unfolded Required_def])
      from True "1.IH"(1,2) have
        "wellFormed (Required node) \<longrightarrow> 0 \<le> c \<longrightarrow> c + int (numLeaves (Required node)) \<le> 128 \<longrightarrow>
         (\<exists>d rc. deconstructFuncOf c (Required node) = Inr (c + int (numLeaves (Required node)), d)
            \<and> reconstructFuncOf c (Required node) = (c + int (numLeaves (Required node)), rc)
            \<and> roundTrips c (c + int (numLeaves (Required node))) d rc
                 (conformsTo (Required node)) (levelDepth (Required node)))"
        by blast
      with nR c0 le obtain d0 rc0 where
        d0: "deconstructFuncOf c (Required node) = Inr (c + int ?n, d0)"
        and rc0: "reconstructFuncOf c (Required node) = (c + int ?n, rc0)"
        and RT0: "roundTrips c (c + int ?n) d0 rc0 (conformsTo (Required node))
                    (levelDepth (Required node))"
        by auto
      from emitsNulls_compiled [OF d0] have nulls: "emitsNulls c (c + int ?n) d0" by blast
      have lt: "c < c + int ?n" using pos by simp
      show ?thesis
      proof (cases "Optional node")
        case opt: True
        have "roundTrips c (c + int ?n) (deconstructOptional d0)
            (reconstructOptional c (c + int ?n - c) rc0)
            (optionalConforms (conformsTo (Required node))) (Suc (levelDepth (Required node)))"
          using RT0 nulls c0 lt le by (rule roundTrips_optional)
        then show ?thesis
          using opt d0 rc0
          by (simp add: deconstructFuncOf_Optional reconstructFuncOf_Optional
              conformsTo_Optional levelDepth_Optional)
      next
        case nopt: False
        with True have rep: "isRepeated node" by simp
        have "roundTrips c (c + int ?n) (deconstructRepeated d0)
            (reconstructRepeated c (c + int ?n - c) rc0)
            (repeatedConforms (conformsTo (Required node))) (Suc (levelDepth (Required node)))"
          using RT0 nulls c0 lt le by (rule roundTrips_repeated)
        then show ?thesis
          using nopt rep d0 rc0
          by (simp add: deconstructFuncOf_Repeated reconstructFuncOf_Repeated
              conformsTo_Repeated levelDepth_Repeated)
      qed
    next
      case False
      then have no: "\<not> Optional node" "\<not> isRepeated node" by auto
      show ?thesis
      proof (cases node)
        case (Leaf r k)
        with no have r: "r = RequiredNode"
          by (cases r) (simp_all add: Optional_def isRepeated_def)
        from le Leaf have c127: "c \<le> 127" by simp
        from roundTrips_leaf [OF c0 c127, of k] c127 show ?thesis
          unfolding Leaf r
          by (simp add: deconstructFuncOf_Leaf reconstructFuncOf_Leaf conformsTo_Leaf
              levelDepth_Leaf deconstructFuncOfLeaf_def MaxColumnIndex_def)
      next
        case (Group r cs)
        with no have r: "r = RequiredNode"
          by (cases r) (simp_all add: Optional_def isRepeated_def)
        have n: "?n = numLeavesOf cs" using Group by (simp add: numLeavesOf_def)
        from Group wf have wfs: "list_all (\<lambda>ch. wellFormed (snd ch)) cs"
          by simp
        from Group no "1.IH"(5) have
          "list_all (\<lambda>ch. wellFormed (snd ch)) cs \<longrightarrow> 0 \<le> c \<longrightarrow> c + int (numLeavesOf cs) \<le> 128 \<longrightarrow>
           (\<exists>ds rcs. deconstructFuncsOf c cs = Inr (c + int (numLeavesOf cs), ds)
              \<and> reconstructFuncsOf c cs = (c + int (numLeavesOf cs), rcs)
              \<and> fieldsRoundTrip c ds rcs (conformsAll cs) (levelDepths cs)
                   (c + int (numLeavesOf cs))
              \<and> length ds = length cs)"
          by simp
        with wfs c0 le n obtain ds rcs where
          ds: "deconstructFuncsOf c cs = Inr (c + int ?n, ds)"
          and rcs: "reconstructFuncsOf c cs = (c + int ?n, rcs)"
          and FR: "fieldsRoundTrip c ds rcs (conformsAll cs) (levelDepths cs) (c + int ?n)"
          and len: "length ds = length cs"
          by auto
        from roundTrips_group [OF FR] ds rcs show ?thesis
          unfolding Group r
          by (simp add: deconstructFuncOf_Group reconstructFuncOf_Group conformsTo_Group
              levelDepth_Group n)
      next
        case (ListOf r e)
        with no have r: "r = RequiredNode"
          by (cases r) (simp_all add: Optional_def isRepeated_def)
        have nR: "numLeaves (Repeated e) = ?n" "wellFormed (Repeated e)"
          using wf ListOf by (simp_all add: wellFormed_Repeated) (simp add: Repeated_def)
        from ListOf no "1.IH"(3) have
          "wellFormed (Repeated e) \<longrightarrow> 0 \<le> c \<longrightarrow> c + int (numLeaves (Repeated e)) \<le> 128 \<longrightarrow>
           (\<exists>d rc. deconstructFuncOf c (Repeated e) = Inr (c + int (numLeaves (Repeated e)), d)
              \<and> reconstructFuncOf c (Repeated e) = (c + int (numLeaves (Repeated e)), rc)
              \<and> roundTrips c (c + int (numLeaves (Repeated e))) d rc
                   (conformsTo (Repeated e)) (levelDepth (Repeated e)))"
          by simp
        with nR c0 le show ?thesis
          unfolding ListOf r
          by (simp add: deconstructFuncOf_List reconstructFuncOf_List conformsTo_List
              levelDepth_List)
      next
        case (MapOf r kv kt vt)
        let ?kv = "Repeated kv"
        from MapOf no have r: "r = RequiredNode"
          by (cases r) (simp_all add: Optional_def isRepeated_def)
        have nR: "numLeaves ?kv = ?n" "wellFormed ?kv"
          using wf MapOf by (simp_all add: wellFormed_Repeated) (simp add: Repeated_def)
        from MapOf no "1.IH"(4) have
          "wellFormed ?kv \<longrightarrow> 0 \<le> c \<longrightarrow> c + int (numLeaves ?kv) \<le> 128 \<longrightarrow>
           (\<exists>d rc. deconstructFuncOf c ?kv = Inr (c + int (numLeaves ?kv), d)
              \<and> reconstructFuncOf c ?kv = (c + int (numLeaves ?kv), rc)
              \<and> roundTrips c (c + int (numLeaves ?kv)) d rc (conformsTo ?kv) (levelDepth ?kv))"
          by simp
        with nR c0 le obtain d0 rc0 where
          d0: "deconstructFuncOf c ?kv = Inr (c + int ?n, d0)"
          and rc0: "reconstructFuncOf c ?kv = (c + int ?n, rc0)"
          and RT0: "roundTrips c (c + int ?n) d0 rc0 (conformsTo ?kv) (levelDepth ?kv)"
          by auto
        from roundTrips_map [OF RT0, of kt vt] d0 rc0 show ?thesis
          unfolding MapOf r
          by (simp add: deconstructFuncOf_Map reconstructFuncOf_Map conformsTo_Map
              levelDepth_Map)
      qed
    qed
  qed
next
  case (2 c)
  show ?case by (simp add: numLeavesOf_def)
next
  case (3 c child rest)
  show ?case
  proof (intro impI)
    assume wfs: "list_all (\<lambda>ch. wellFormed (snd ch)) (child # rest)" and c0: "0 \<le> c"
      and le: "c + int (numLeavesOf (child # rest)) \<le> 128"
    let ?n = "numLeaves (snd child)" and ?m = "numLeavesOf rest"
    have sum: "numLeavesOf (child # rest) = ?n + ?m" by (simp add: numLeavesOf_def)
    from wfs have wf1: "wellFormed (snd child)"
      and wf2: "list_all (\<lambda>ch. wellFormed (snd ch)) rest" by simp_all
    from "3.IH"(1) wf1 c0 le sum obtain d rc where
      d: "deconstructFuncOf c (snd child) = Inr (c + int ?n, d)"
      and rc: "reconstructFuncOf c (snd child) = (c + int ?n, rc)"
      and RT: "roundTrips c (c + int ?n) d rc (conformsTo (snd child)) (levelDepth (snd child))"
      by auto
    from "3.IH"(2) [OF d refl] wf2 c0 le sum obtain ds rcs where
      ds: "deconstructFuncsOf (c + int ?n) rest = Inr (c + int ?n + int ?m, ds)"
      and rcs: "reconstructFuncsOf (c + int ?n) rest = (c + int ?n + int ?m, rcs)"
      and FR: "fieldsRoundTrip (c + int ?n) ds rcs (conformsAll rest) (levelDepths rest)
                 (c + int ?n + int ?m)"
      and len: "length ds = length rest"
      by auto
    let ?k = "max (levelDepth (snd child)) (levelDepths rest)"
    have RT': "roundTrips c (c + int ?n) d rc (conformsTo (snd child)) ?k"
      using RT by (rule roundTrips_mono) simp
    have FR': "fieldsRoundTrip (c + int ?n) ds rcs (conformsAll rest) ?k (c + int ?n + int ?m)"
      using FR by (rule fieldsRoundTrip_mono) simp
    have "fieldsRoundTrip c (d # ds) ((fst child, rc) # rcs) (conformsAll (child # rest))
            (levelDepths (child # rest)) (c + int (?n + ?m))"
    proof -
      have "c \<le> c + int ?n" by simp
      with RT' FR' have "\<exists>c1. c \<le> c1
          \<and> roundTrips c c1 d (snd (fst child, rc)) (conformsTo (snd child)) ?k
          \<and> fieldsRoundTrip c1 ds rcs (conformsAll rest) ?k (c + int ?n + int ?m)"
        by (intro exI [of _ "c + int ?n"]) simp
      then show ?thesis by (simp add: add.assoc)
    qed
    with d ds rc rcs len show "\<exists>ds rcs.
        deconstructFuncsOf c (child # rest) = Inr (c + int (numLeavesOf (child # rest)), ds)
        \<and> reconstructFuncsOf c (child # rest) = (c + int (numLeavesOf (child # rest)), rcs)
        \<and> fieldsRoundTrip c ds rcs (conformsAll (child # rest)) (levelDepths (child # rest))
             (c + int (numLeavesOf (child # rest)))
        \<and> length ds = length (child # rest)"
      unfolding sum by (simp add: add.assoc)
  qed
qed


subsection \<open>The round trip\<close>

text \<open>
  Claim C1, as the code has it. Take a schema in which every optional or repeated group,
  every element of a list and every key-value group of a map has a leaf column, of at
  most 128 leaf columns and at most 127 nested optional and repeated levels, and a record
  of its shape: each leaf holds a host scalar of the Go type of its physical kind, not a
  NaN, or, for a byte array, a slice of bytes; the slices of the repeated fields, of the
  lists and of bytes and the maps are not nil where they are present (a nil slice or map
  is the zero value of an absent optional field only); the keys of a map hold no
  pointer. Then the row produced by the deconstructor of the schema, handed to its
  reconstructor with a fresh destination of the host type of the record, is consumed
  entirely and yields a value equal to the record, the record itself, for every nesting
  of optional, repeated, list and map nodes.
\<close>

theorem deconstruct_reconstruct_roundTrip:
  assumes "wellFormed schema" and "numLeaves schema \<le> 128" and "levelDepth schema \<le> 127"
    and "conformsTo schema t r"
  shows "\<exists>row. deconstructRow schema r = Inr row
           \<and> reconstructRow schema t row = Some (Inr (r, [], None))"
proof -
  from compile_roundTrips(1) [of schema 0] assms(1,2) obtain d rc where
    d: "deconstructFuncOf 0 schema = Inr (int (numLeaves schema), d)"
    and rc: "reconstructFuncOf 0 schema = (int (numLeaves schema), rc)"
    and RT: "roundTrips 0 (int (numLeaves schema)) d rc (conformsTo schema) (levelDepth schema)"
    by auto
  have "levelsOK zeroLevels (levelDepth schema)"
    using assms(3) by (simp add: levelsOK_def zeroLevels_def)
  with RT assms(4) obtain out where
    dec: "\<And>row0. d row0 zeroLevels r = Inr (row0 @ out)"
    and rec: "\<And>rest. stops (int (numLeaves schema)) zeroLevels rest \<Longrightarrow>
                 rc t (Zero t) zeroLevels (out @ rest) = Some (Inr (r, rest, None))"
    unfolding roundTrips_def by blast
  have "deconstructRow schema r = Inr out"
    using dec [of "[]"] by (simp add: deconstructRow_def d)
  moreover have "reconstructRow schema t out = Some (Inr (r, [], None))"
    using rec [of "[]"] by (simp add: reconstructRow_def rc stops_def)
  ultimately show ?thesis by blast
qed

text \<open>
  A record with an optional pointer to zero, a list, a map from strings to integers with
  the schema of its key-value struct, a repeated group holding a repeated leaf, one of
  them empty, a pointer to a slice of bytes, an optional slice of bytes that is empty and
  not nil, the negative zero and an empty required group.
\<close>

definition exampleSchema :: node where
  "exampleSchema = Group RequiredNode
     [(''a'', Leaf OptionalNode Int32),
      (''xs'', ListOf RequiredNode (Leaf RequiredNode Int32)),
      (''m'', MapOf RequiredNode
                (Group RequiredNode [(''Key'', Leaf RequiredNode ByteArray),
                                     (''Value'', Leaf RequiredNode Int32)])
                (TScalar ByteArray) (TScalar Int32)),
      (''g'', Group RepeatedNode [(''ys'', Leaf RepeatedNode Int64)]),
      (''b'', Leaf OptionalNode ByteArray),
      (''c'', Leaf OptionalNode ByteArray),
      (''f'', Leaf RequiredNode Double),
      (''e'', Group RequiredNode [])]"

definition exampleType :: htype where
  "exampleType = TStruct
     [TPtr (TScalar Int32), TSlice (TScalar Int32), TMap (TScalar ByteArray) (TScalar Int32),
      TSlice (TStruct [TSlice (TScalar Int64)]), TPtr (TSlice TByte), TSlice TByte,
      TScalar Double, TStruct []]"

definition exampleRecord :: hvalue where
  "exampleRecord = Struct
     [Ptr (Some (Scalar (PInt32 0))),
      Slice (Some [Scalar (PInt32 1), Scalar (PInt32 2)]),
      MapV (Some [(Scalar (PByteArray [97]), Scalar (PInt32 0)),
                  (Scalar (PByteArray [98]), Scalar (PInt32 7))]),
      Slice (Some [Struct [Slice (Some [Scalar (PInt64 3), Scalar (PInt64 4)])],
                   Struct [Slice (Some [])]]),
      Ptr (Some (Slice (Some [Byte 1, Byte 2]))),
      Slice (Some []),
      Scalar (PDouble 0x8000000000000000),
      Struct []]"


theorem deconstruct_reconstruct_roundTrip_witness:
  "wellFormed exampleSchema \<and> numLeaves exampleSchema \<le> 128 \<and> levelDepth exampleSchema \<le> 127
   \<and> conformsTo exampleSchema exampleType exampleRecord
   \<and> (\<exists>row. deconstructRow exampleSchema exampleRecord = Inr row
          \<and> reconstructRow exampleSchema exampleType row = Some (Inr (exampleRecord, [], None)))"
proof -
  have h1: "wellFormed exampleSchema" by (simp add: exampleSchema_def)
  have h2: "numLeaves exampleSchema \<le> 128" by (simp add: exampleSchema_def)
  have h3: "levelDepth exampleSchema \<le> 127"
    by (simp add: exampleSchema_def levelDepth.simps Optional_def isRepeated_def Required_def
        Repeated_def)
  have h4: "conformsTo exampleSchema exampleType exampleRecord"
    by (simp add: exampleSchema_def exampleType_def exampleRecord_def conformsTo.simps
        Optional_def isRepeated_def Required_def Repeated_def optionalConforms_def
        repeatedConforms_def groupConforms_def mapConforms_def leafConforms_def isNaN64_def)
  from deconstruct_reconstruct_roundTrip [OF h1 h2 h3 h4] h1 h2 h3 h4 show ?thesis by blast
qed

text \<open>
  A nil slice in a repeated field is deconstructed like an empty one, and comes back as
  the empty slice, which is not the nil slice.
\<close>

theorem roundTrip_nil_slice:
  "deconstructRow (Group RequiredNode [(''xs'', Leaf RepeatedNode Int32)]) (Struct [Slice None])
     = Inr [leveled 0 0 0 Null]
   \<and> reconstructRow (Group RequiredNode [(''xs'', Leaf RepeatedNode Int32)])
       (TStruct [TSlice (TScalar Int32)]) [leveled 0 0 0 Null]
     = Some (Inr (Struct [Slice (Some [])], [], None))
   \<and> Struct [Slice (Some [])] \<noteq> Struct [Slice None]"
  by (simp add: deconstructRow_def reconstructRow_def deconstructFuncOf.simps
      reconstructFuncOf.simps Optional_def isRepeated_def Required_def Repeated_def
      deconstructFuncOfLeaf_def MaxColumnIndex_def deconstructGroup_def deconstructRepeated_def
      deconstructLeaf_def reconstructGroup_def reconstructRepeated_def startsWith_def
      zeroValue_def zeroLevels_def leveled_def ColumnIndex_def word_sless_alt Let_def)

text \<open>
  The other conditions on the record and on the schema cannot be dropped either. A NaN
  is not equal to itself, and a map with a NaN among its keys makes the deconstructor
  panic: \<open>MapIndex\<close> does not find the key and \<open>Convert\<close> is called on the invalid
  value.
\<close>

lemma nan_not_equal:
  "\<not> goEqual (Scalar (PDouble 0x7FF8000000000000)) (Scalar (PDouble 0x7FF8000000000000))"
  by (simp add: isNaN64_def)

lemma deconstruct_nan_key:
  "deconstructRow
     (MapOf RequiredNode
        (Group RequiredNode [(''Key'', Leaf RequiredNode Double),
                             (''Value'', Leaf RequiredNode Int32)])
        (TScalar Double) (TScalar Int32))
     (MapV (Some [(Scalar (PDouble 0x7FF8000000000000), Scalar (PInt32 1))]))
   = Inl ReflectPanic"
  by (simp add: deconstructRow_def deconstructFuncOf.simps Optional_def isRepeated_def
      Required_def Repeated_def deconstructFuncOfLeaf_def MaxColumnIndex_def
      deconstructMap_def Convert_def isNaN64_def)

text \<open>
  A nil map in a required field comes back as an empty map, and a pointer to an optional
  group without columns leaves no value in the row, so that the reconstructor fails.
\<close>

lemma roundTrip_nil_map:
  "deconstructRow
     (MapOf RequiredNode
        (Group RequiredNode [(''Key'', Leaf RequiredNode ByteArray),
                             (''Value'', Leaf RequiredNode Int32)])
        (TScalar ByteArray) (TScalar Int32))
     (MapV None)
   = Inr [leveled 0 0 0 Null, leveled 1 0 0 Null]
   \<and> reconstructRow
       (MapOf RequiredNode
          (Group RequiredNode [(''Key'', Leaf RequiredNode ByteArray),
                               (''Value'', Leaf RequiredNode Int32)])
          (TScalar ByteArray) (TScalar Int32))
       (TMap (TScalar ByteArray) (TScalar Int32)) [leveled 0 0 0 Null, leveled 1 0 0 Null]
     = Some (Inr (MapV (Some []), [], None))"
  by (simp add: deconstructRow_def reconstructRow_def deconstructFuncOf.simps
      reconstructFuncOf.simps Optional_def isRepeated_def Required_def Repeated_def
      deconstructFuncOfLeaf_def MaxColumnIndex_def deconstructMap_def deconstructGroup_def
      deconstructRepeated_def deconstructLeaf_def reconstructMap_def reconstructRepeated_def
      startsWith_def zeroValue_def zeroLevels_def leveled_def ColumnIndex_def word_sless_alt
      Let_def)

lemma roundTrip_empty_optional_group:
  "deconstructRow (Group RequiredNode [(''g'', Group OptionalNode [])])
     (Struct [Ptr (Some (Struct []))]) = Inr []
   \<and> reconstructRow (Group RequiredNode [(''g'', Group OptionalNode [])])
       (TStruct [TPtr (TStruct [])]) []
     = Some (Inr (Struct [Ptr None], [], Some (ErrChild ''g'' (ErrMissingOptionalColumn 0))))"
  by (simp add: deconstructRow_def reconstructRow_def deconstructFuncOf.simps
      reconstructFuncOf.simps Optional_def isRepeated_def Required_def
      deconstructGroup_def deconstructOptional_def reconstructGroup_def
      reconstructOptional_def startsWith_def zeroLevels_def)

end
